theory Spec2Isabelle
  imports Main "HOL-Library.Multiset" "HOL-Library.AList"
begin

section \<open>The canonical structure enumerator\<close>

subsection \<open>Helpers of the module \<open>utils\<close>\<close>

text \<open>
  Modelled from the spec: \<open>_generate_all_unique_integer_partitions\<close> of
  \<open>cograph_generator/utils.py\<close>, a module the composer imports and that is not among
  the sources. The spec's PartitionEnumerator yields the partitions of \<open>n\<close> as
  non-increasing sequences of positive parts, each once, in a fixed order (here
  reverse-lexicographic: largest first part first). The composer itself skips the
  one-part partition (\<open>if len(partition) == 1: continue\<close>), so the helper yields it.
  \<open>partitions_upto n m\<close> lists the partitions of \<open>n\<close> whose parts are at most \<open>m\<close>.
\<close>

fun partitions_upto :: "nat \<Rightarrow> nat \<Rightarrow> nat list list" where
  "partitions_upto n 0 = (if n = 0 then [[]] else [])"
| "partitions_upto n (Suc m) =
     (if Suc m \<le> n then map ((#) (Suc m)) (partitions_upto (n - Suc m) (Suc m)) else [])
     @ partitions_upto n m"

declare partitions_upto.simps(2) [simp del]

definition generate_all_unique_integer_partitions :: "nat \<Rightarrow> nat list list" where
  "generate_all_unique_integer_partitions n = partitions_upto n n"

text \<open>
  Modelled from the spec: \<open>_generate_ordered_cartesian_product\<close> of the same absent
  module. The spec's combination rule: the parts of a partition are grouped by equal
  size; a group of multiplicity \<open>m\<close> selects a combination with repetition of size \<open>m\<close>
  (non-decreasing index selection) from the stream of its size; the groups' choices are
  combined by a Cartesian product and concatenated in the order of the partition. The
  helper receives the child streams only; parts of equal size have equal streams and stand
  next to each other in a non-increasing partition, so the groups are the runs of equal
  streams.
\<close>

fun group_runs :: "'a list \<Rightarrow> ('a \<times> nat) list" where
  "group_runs [] = []"
| "group_runs (x # xs) =
     (case group_runs xs of
        [] \<Rightarrow> [(x, 1)]
      | (y, m) # r \<Rightarrow> if x = y then (x, Suc m) # r else (x, 1) # (y, m) # r)"

fun combinations_with_repetition :: "nat \<Rightarrow> 'a list \<Rightarrow> 'a list list" where
  "combinations_with_repetition 0 xs = [[]]"
| "combinations_with_repetition (Suc m) [] = []"
| "combinations_with_repetition (Suc m) (x # xs) =
     map ((#) x) (combinations_with_repetition m (x # xs))
     @ combinations_with_repetition (Suc m) xs"

fun product_of_groups :: "('a list \<times> nat) list \<Rightarrow> 'a list list" where
  "product_of_groups [] = [[]]"
| "product_of_groups ((s, m) # gs) =
     concat (map (\<lambda>c. map ((@) c) (product_of_groups gs)) (combinations_with_repetition m s))"

definition generate_ordered_cartesian_product :: "'a list list \<Rightarrow> 'a list list" where
  "generate_ordered_cartesian_product child_streams =
     product_of_groups (group_runs child_streams)"

text \<open>
  Modelled from the spec: \<open>_apply_cograph_operator_structure\<close> of the same absent module.
  The canonical structure text is \<open>a\<close>, \<open>J(child,...,child)\<close> or \<open>U(child,...,child)\<close>,
  with no whitespace: the operator, an opening parenthesis, the children separated by
  commas, a closing parenthesis.
\<close>

fun join_commas :: "string list \<Rightarrow> string" where
  "join_commas [] = []"
| "join_commas [s] = s"
| "join_commas (s # t # ss) = s @ CHR '','' # join_commas (t # ss)"

definition apply_cograph_operator_structure :: "string \<Rightarrow> string list \<Rightarrow> string" where
  "apply_cograph_operator_structure operator children =
     operator @ ''('' @ join_commas children @ '')''"

subsection \<open>Facts on partitions that the composer's termination needs\<close>

lemma partitions_upto_Suc_cases:
  assumes "p \<in> set (partitions_upto n (Suc m))"
  shows "p \<in> set (partitions_upto n m) \<or>
         (Suc m \<le> n \<and> (\<exists>q \<in> set (partitions_upto (n - Suc m) (Suc m)). p = Suc m # q))"
proof -
  have "set (partitions_upto n (Suc m)) =
     set (if Suc m \<le> n then map ((#) (Suc m)) (partitions_upto (n - Suc m) (Suc m)) else [])
     \<union> set (partitions_upto n m)"
    by (subst partitions_upto.simps(2)) (rule set_append)
  with assms show ?thesis by (cases "Suc m \<le> n") auto
qed

lemma partitions_upto_parts:
  "p \<in> set (partitions_upto n m) \<Longrightarrow> sum_list p = n \<and> (\<forall>k\<in>set p. 0 < k)"
proof (induction n m arbitrary: p rule: partitions_upto.induct)
  case (1 n)
  then show ?case by (simp split: if_splits)
next
  case (2 n m)
  from partitions_upto_Suc_cases[OF "2.prems"] show ?case
  proof
    assume "p \<in> set (partitions_upto n m)"
    then show ?thesis using "2.IH"(2) by blast
  next
    assume "Suc m \<le> n \<and> (\<exists>q \<in> set (partitions_upto (n - Suc m) (Suc m)). p = Suc m # q)"
    then obtain q where le: "Suc m \<le> n"
      and q: "q \<in> set (partitions_upto (n - Suc m) (Suc m))" "p = Suc m # q"
      by blast
    from "2.IH"(1)[OF le q(1)] q(2) le show ?thesis by auto
  qed
qed

lemma part_less_sum:
  assumes "k \<in> set p" and "\<forall>x\<in>set p. 0 < x" and "length p \<noteq> 1"
  shows "k < sum_list (p::nat list)"
proof -
  from assms(1) obtain xs ys where p: "p = xs @ k # ys"
    by (auto simp: in_set_conv_decomp)
  with assms(3) have "xs \<noteq> [] \<or> ys \<noteq> []" by auto
  then have "0 < sum_list xs + sum_list ys"
    using assms(2) p by (cases xs; cases ys) auto
  then show ?thesis using p by simp
qed

lemma partition_part_less:
  assumes "p \<in> set (generate_all_unique_integer_partitions n)"
    and "length p \<noteq> 1" and "part_size \<in> set p"
  shows "part_size < n \<and> 0 < part_size"
  using assms partitions_upto_parts[of p n n] part_less_sum[of part_size p]
  by (auto simp: generate_all_unique_integer_partitions_def)

subsection \<open>The composer (\<open>cograph_generator/generator.py\<close>)\<close>

text \<open>
  \<open>generate_all_cotree_structures(node_count, depth)\<close>: the Python generator yields its
  structures one by one; the model returns them as the list of the yields, in order. The
  operator is \<open>J\<close> at even depth and \<open>U\<close> at odd depth; a single node yields the leaf
  \<open>a\<close>; otherwise every partition but the one-part partition contributes the operator
  applied to each combination of the ordered product of its parts' child streams, each
  child stream being the list of the recursive call at \<open>depth + 1\<close>.
\<close>

function generate_all_cotree_structures :: "nat \<Rightarrow> nat \<Rightarrow> string list" where
  "generate_all_cotree_structures node_count depth =
     (if node_count = 1 then [''a'']
      else concat (map (\<lambda>partition.
             if length partition = 1 then []
             else map (apply_cograph_operator_structure (if depth mod 2 = 0 then ''J'' else ''U''))
                    (generate_ordered_cartesian_product
                       (map (\<lambda>part_size. generate_all_cotree_structures part_size (depth + 1))
                          partition)))
           (generate_all_unique_integer_partitions node_count)))"
  by pat_completeness simp
termination
proof (relation "measure fst")
  show "wf (measure fst)" by simp
next
  fix node_count depth :: nat and partition part_size
  assume "node_count \<noteq> 1"
    and "partition \<in> set (generate_all_unique_integer_partitions node_count)"
    and "length partition \<noteq> 1" and "part_size \<in> set partition"
  then show "((part_size, depth + 1), node_count, depth) \<in> measure fst"
    using partition_part_less[of partition node_count part_size] by simp
qed

declare generate_all_cotree_structures.simps [simp del]

text \<open>
  Modelled from the spec: the entry points of \<open>src/cograph_generator/structures.py\<close>, a
  module the pipeline imports and that is not among the sources. \<open>connected(n)\<close> is
  \<open>compose(n, 0)\<close>. \<open>all(n)\<close> adds to it the structures whose root is a \<open>UNION\<close> of two or
  more connected components, each drawn from \<open>connected\<close> of its size, components of
  equal size combined by the same repetition-aware rule.
\<close>

definition generate_connected_cotree_structures :: "nat \<Rightarrow> string list" where
  "generate_connected_cotree_structures n = generate_all_cotree_structures n 0"

definition generate_disconnected_cotree_structures :: "nat \<Rightarrow> string list" where
  "generate_disconnected_cotree_structures n =
     concat (map (\<lambda>partition.
        if length partition = 1 then []
        else map (apply_cograph_operator_structure ''U'')
               (generate_ordered_cartesian_product
                  (map generate_connected_cotree_structures partition)))
      (generate_all_unique_integer_partitions n))"

definition all_cotree_structures :: "nat \<Rightarrow> string list" where
  "all_cotree_structures n =
     generate_connected_cotree_structures n @ generate_disconnected_cotree_structures n"

section \<open>Count fixtures\<close>

text \<open>
  C1. For leaf counts 1, 2, 3 and 4 the connected enumeration
  \<open>generate_all_cotree_structures n 0\<close> emits 1, 1, 2 and 5 structures, and the full
  enumeration \<open>all(n)\<close> emits 1, 2, 4 and 10 structures.
\<close>

theorem count_fixtures:
  "map (\<lambda>n. length (generate_all_cotree_structures n 0)) [1, 2, 3, 4] = [1, 1, 2, 5]
   \<and> map (\<lambda>n. length (all_cotree_structures n)) [1, 2, 3, 4] = [1, 2, 4, 10]"
  by code_simp

section \<open>What a recursion level of the composer holds\<close>

text \<open>
  The local \<open>child_streams\<close> of one pass of the composer's partition loop: for every part
  of the partition, \<open>list(generate_all_cotree_structures(part_size, depth + 1))\<close>, the
  whole stream of that part. The loop builds it before it forms the first combination.
\<close>

definition child_streams :: "nat list \<Rightarrow> nat \<Rightarrow> string list list" where
  "child_streams parts depth =
     map (\<lambda>part_size. generate_all_cotree_structures part_size (depth + 1)) parts"

lemma composer_child_streams:
  "generate_all_cotree_structures node_count depth =
     (if node_count = 1 then [''a'']
      else concat (map (\<lambda>parts.
             if length parts = 1 then []
             else map (apply_cograph_operator_structure (if depth mod 2 = 0 then ''J'' else ''U''))
                    (generate_ordered_cartesian_product (child_streams parts depth)))
           (generate_all_unique_integer_partitions node_count)))"
  by (subst generate_all_cotree_structures.simps) (simp only: child_streams_def)

text \<open>
  C9. At leaf count 4 and depth 0, the pass for the partition \<open>(3, 1)\<close> holds in
  \<open>child_streams\<close> both structures of size 3, the whole child stream, although each of the
  two combinations it then forms uses one of them.
\<close>

theorem child_streams_hold_whole_stream:
  "[3, 1] \<in> set (generate_all_unique_integer_partitions 4)
   \<and> child_streams [3, 1] 0 = [[''U(J(a,a),a)'', ''U(a,a,a)''], [''a'']]
   \<and> child_streams [3, 1] 0 = [generate_all_cotree_structures 3 1, generate_all_cotree_structures 1 1]
   \<and> generate_ordered_cartesian_product (child_streams [3, 1] 0)
       = [[''U(J(a,a),a)'', ''a''], [''U(a,a,a)'', ''a'']]"
  by code_simp

section \<open>Canonical structures as trees\<close>

datatype cograph_operator = JOIN | UNION

datatype cotree = Leaf | Node cograph_operator "cotree list"

fun operator_text :: "cograph_operator \<Rightarrow> string" where
  "operator_text JOIN = ''J''"
| "operator_text UNION = ''U''"

text \<open>The canonical structure text of a tree, written with the composer's own operator
  application.\<close>

fun structure_text :: "cotree \<Rightarrow> string" where
  "structure_text Leaf = ''a''"
| "structure_text (Node opr cs) =
     apply_cograph_operator_structure (operator_text opr) (map structure_text cs)"

fun leaf_count :: "cotree \<Rightarrow> nat" where
  "leaf_count Leaf = 1"
| "leaf_count (Node opr cs) = sum_list (map leaf_count cs)"

fun root_operator :: "cotree \<Rightarrow> cograph_operator option" where
  "root_operator Leaf = None"
| "root_operator (Node opr cs) = Some opr"

text \<open>No \<open>JOIN\<close> node has a \<open>JOIN\<close> child and no \<open>UNION\<close> node has a \<open>UNION\<close> child.\<close>

fun no_same_operator_child :: "cotree \<Rightarrow> bool" where
  "no_same_operator_child Leaf = True"
| "no_same_operator_child (Node opr cs) =
     (\<forall>c \<in> set cs. root_operator c \<noteq> Some opr \<and> no_same_operator_child c)"

text \<open>Every internal node at distance \<open>k\<close> from the root carries \<open>J\<close> when \<open>d + k\<close> is even
  and \<open>U\<close> when it is odd.\<close>

definition depth_operator :: "nat \<Rightarrow> cograph_operator" where
  "depth_operator d = (if d mod 2 = 0 then JOIN else UNION)"

fun alternates_from :: "nat \<Rightarrow> cotree \<Rightarrow> bool" where
  "alternates_from d Leaf = True"
| "alternates_from d (Node opr cs) =
     (opr = depth_operator d \<and> (\<forall>c \<in> set cs. alternates_from (Suc d) c))"

text \<open>Every operator node has at least two children, as the grammar of the canonical
  structure text asks.\<close>

fun well_formed :: "cotree \<Rightarrow> bool" where
  "well_formed Leaf = True"
| "well_formed (Node opr cs) = (2 \<le> length cs \<and> (\<forall>c \<in> set cs. well_formed c))"

lemma depth_operator_Suc: "depth_operator (Suc d) \<noteq> depth_operator d"
  by (simp add: depth_operator_def mod_Suc)

lemma operator_text_depth:
  "operator_text (depth_operator d) = (if d mod 2 = 0 then ''J'' else ''U'')"
  by (simp add: depth_operator_def)

lemma alternates_no_same_child:
  "alternates_from d t \<Longrightarrow> no_same_operator_child t"
proof (induction t arbitrary: d)
  case Leaf
  show ?case by simp
next
  case (Node opr cs)
  have "root_operator c \<noteq> Some opr \<and> no_same_operator_child c" if c: "c \<in> set cs" for c
  proof -
    from Node.prems c have a: "alternates_from (Suc d) c" and o: "opr = depth_operator d"
      by auto
    from a have "root_operator c \<noteq> Some (depth_operator d)"
      using depth_operator_Suc[of d] by (cases c) auto
    with o Node.IH[OF c a] show ?thesis by simp
  qed
  then show ?case by simp
qed

subsection \<open>The ordered product draws each component from its own stream\<close>

lemma combinations_with_repetition_members:
  "c \<in> set (combinations_with_repetition m xs) \<Longrightarrow> length c = m \<and> set c \<subseteq> set xs"
  by (induction m xs arbitrary: c rule: combinations_with_repetition.induct) fastforce+

lemma group_runs_decode:
  "concat (map (\<lambda>(x, m). replicate m x) (group_runs xs)) = xs"
  by (induction xs) (auto split: list.splits)

lemma product_of_groups_members:
  "c \<in> set (product_of_groups gs) \<Longrightarrow>
     list_all2 (\<lambda>x s. x \<in> set s) c (concat (map (\<lambda>(s, m). replicate m s) gs))"
proof (induction gs arbitrary: c)
  case Nil
  then show ?case by simp
next
  case (Cons g gs)
  obtain s m where g: "g = (s, m)" by (cases g)
  from Cons.prems g obtain a b where a: "a \<in> set (combinations_with_repetition m s)"
    and b: "b \<in> set (product_of_groups gs)" and c: "c = a @ b"
    by auto
  from combinations_with_repetition_members[OF a]
  have "list_all2 (\<lambda>x s. x \<in> set s) a (replicate m s)"
    by (auto simp: list_all2_conv_all_nth)
  with Cons.IH[OF b] show ?case
    unfolding c g by (simp add: list_all2_appendI)
qed

lemma ordered_product_members:
  "c \<in> set (generate_ordered_cartesian_product streams) \<Longrightarrow>
     list_all2 (\<lambda>x s. x \<in> set s) c streams"
  using product_of_groups_members[of c "group_runs streams"]
  by (simp add: generate_ordered_cartesian_product_def group_runs_decode)

lemma list_all2_trees:
  "list_all2 (\<lambda>x k. \<exists>t. f t = x \<and> A t \<and> g t = k) xs ks \<Longrightarrow>
     \<exists>ts. map f ts = xs \<and> (\<forall>t \<in> set ts. A t) \<and> map g ts = ks"
proof (induction rule: list_all2_induct)
  case Nil
  show ?case by simp
next
  case (Cons x xs k ks)
  from Cons.hyps(1) obtain t where t: "f t = x" "A t" "g t = k" by blast
  from Cons.IH obtain ts where ts: "map f ts = xs" "\<forall>t \<in> set ts. A t" "map g ts = ks"
    by blast
  from t ts have "map f (t # ts) = x # xs \<and> (\<forall>u \<in> set (t # ts). A u) \<and> map g (t # ts) = k # ks"
    by simp
  then show ?case by (rule exI[of _ "t # ts"])
qed

subsection \<open>Every emitted string is the text of an alternating tree\<close>

lemma composer_step:
  assumes "node_count \<noteq> 1" and "s \<in> set (generate_all_cotree_structures node_count depth)"
  obtains p c where "p \<in> set (generate_all_unique_integer_partitions node_count)"
    and "length p \<noteq> 1"
    and "c \<in> set (generate_ordered_cartesian_product (child_streams p depth))"
    and "s = apply_cograph_operator_structure (if depth mod 2 = 0 then ''J'' else ''U'') c"
proof -
  from assms have "s \<in> set (concat (map (\<lambda>parts.
             if length parts = 1 then []
             else map (apply_cograph_operator_structure (if depth mod 2 = 0 then ''J'' else ''U''))
                    (generate_ordered_cartesian_product (child_streams parts depth)))
           (generate_all_unique_integer_partitions node_count)))"
    by (subst (asm) composer_child_streams) simp
  then obtain p where p: "p \<in> set (generate_all_unique_integer_partitions node_count)"
    and s: "s \<in> set (if length p = 1 then []
             else map (apply_cograph_operator_structure (if depth mod 2 = 0 then ''J'' else ''U''))
                    (generate_ordered_cartesian_product (child_streams p depth)))"
    by auto
  from s have l: "length p \<noteq> 1" by (auto split: if_splits)
  with s obtain c where "c \<in> set (generate_ordered_cartesian_product (child_streams p depth))"
    and "s = apply_cograph_operator_structure (if depth mod 2 = 0 then ''J'' else ''U'') c"
    by auto
  with p l that show thesis by blast
qed

lemma partition_sum:
  "p \<in> set (generate_all_unique_integer_partitions n) \<Longrightarrow> sum_list p = n"
  using partitions_upto_parts[of p n n]
  by (simp add: generate_all_unique_integer_partitions_def)

lemma composer_emits_trees:
  "s \<in> set (generate_all_cotree_structures n d) \<Longrightarrow>
     \<exists>t. structure_text t = s \<and> alternates_from d t \<and> leaf_count t = n
        \<and> (0 < n \<longrightarrow> well_formed t)"
proof (induction n d arbitrary: s rule: generate_all_cotree_structures.induct)
  case (1 n d)
  show ?case
  proof (cases "n = 1")
    case True
    with "1.prems" have "s = ''a''"
      by (subst (asm) generate_all_cotree_structures.simps) simp
    with True have "structure_text Leaf = s \<and> alternates_from d Leaf \<and> leaf_count Leaf = n
        \<and> (0 < n \<longrightarrow> well_formed Leaf)"
      by simp
    then show ?thesis by (rule exI[of _ Leaf])
  next
    case False
    from composer_step[OF False "1.prems"] obtain p c
      where p: "p \<in> set (generate_all_unique_integer_partitions n)" and l: "length p \<noteq> 1"
        and c: "c \<in> set (generate_ordered_cartesian_product (child_streams p d))"
        and s: "s = apply_cograph_operator_structure (if d mod 2 = 0 then ''J'' else ''U'') c"
      by blast
    from ordered_product_members[OF c]
    have "list_all2 (\<lambda>x k. x \<in> set (generate_all_cotree_structures k (d + 1))) c p"
      by (simp add: child_streams_def list_all2_map2)
    then have len: "length c = length p"
      and mem: "\<And>i. i < length c \<Longrightarrow> c ! i \<in> set (generate_all_cotree_structures (p ! i) (d + 1))"
      by (auto simp: list_all2_conv_all_nth)
    have "list_all2 (\<lambda>x k. \<exists>t. structure_text t = x
                 \<and> (alternates_from (Suc d) t \<and> well_formed t) \<and> leaf_count t = k) c p"
      unfolding list_all2_conv_all_nth
    proof (intro conjI allI impI)
      show "length c = length p" by (rule len)
    next
      fix i
      assume i: "i < length c"
      with len have pi: "p ! i \<in> set p" by simp
      from partition_part_less[OF p l pi] have "0 < p ! i" by simp
      with "1.IH"[OF False p l pi mem[OF i]]
      show "\<exists>t. structure_text t = c ! i \<and> (alternates_from (Suc d) t \<and> well_formed t)
                \<and> leaf_count t = p ! i"
        by auto
    qed
    from list_all2_trees[OF this] obtain ts where ts: "map structure_text ts = c"
      "\<forall>t \<in> set ts. alternates_from (Suc d) t \<and> well_formed t" "map leaf_count ts = p"
      by blast
    from ts(3) have lts: "length ts = length p" by (metis length_map)
    have "2 \<le> length ts" if "0 < n"
    proof -
      from that partition_sum[OF p] have "p \<noteq> []" by auto
      then have "length p \<noteq> 0" by simp
      with l lts show ?thesis by arith
    qed
    with ts s partition_sum[OF p]
    have "structure_text (Node (depth_operator d) ts) = s
        \<and> alternates_from d (Node (depth_operator d) ts)
        \<and> leaf_count (Node (depth_operator d) ts) = n
        \<and> (0 < n \<longrightarrow> well_formed (Node (depth_operator d) ts))"
      by (simp add: operator_text_depth)
    then show ?thesis by (rule exI[of _ "Node (depth_operator d) ts"])
  qed
qed

section \<open>The alternation invariant\<close>

text \<open>
  C3, as the code has it. Every string the composer emits, at whatever depth \<open>d\<close> it is
  called, is the canonical text of a tree in which no \<open>JOIN\<close> node has a \<open>JOIN\<close> child and
  no \<open>UNION\<close> node has a \<open>UNION\<close> child, and in which an internal node at distance \<open>k\<close>
  from the root carries \<open>J\<close> when \<open>d + k\<close> is even and \<open>U\<close> when it is odd. Called at an even
  depth, as the entry point \<open>generate_all_cotree_structures n 0\<close> is, the root and the
  internal nodes at even depth carry \<open>J\<close> and those at odd depth carry \<open>U\<close>; called at an
  odd depth it is the other way round.
\<close>

theorem alternation_invariant:
  "s \<in> set (generate_all_cotree_structures n d) \<Longrightarrow>
     \<exists>t. structure_text t = s \<and> no_same_operator_child t \<and> alternates_from d t"
proof -
  assume "s \<in> set (generate_all_cotree_structures n d)"
  from composer_emits_trees[OF this] obtain t
    where "structure_text t = s" and "alternates_from d t" by blast
  with alternates_no_same_child[of d t]
  have "structure_text t = s \<and> no_same_operator_child t \<and> alternates_from d t" by simp
  then show ?thesis by (rule exI[of _ t])
qed

theorem alternation_invariant_witness:
  "''J(U(a,a),a)'' \<in> set (generate_all_cotree_structures 3 0)
   \<and> (\<exists>t. structure_text t = ''J(U(a,a),a)'' \<and> no_same_operator_child t
          \<and> alternates_from 0 t)
   \<and> ''U(J(a,a),a)'' \<in> set (generate_all_cotree_structures 3 1)
   \<and> (\<exists>t. structure_text t = ''U(J(a,a),a)'' \<and> no_same_operator_child t
          \<and> alternates_from 1 t)"
proof -
  have m: "''J(U(a,a),a)'' \<in> set (generate_all_cotree_structures 3 0)" by code_simp
  have k: "''U(J(a,a),a)'' \<in> set (generate_all_cotree_structures 3 1)" by code_simp
  from m alternation_invariant[OF m] k alternation_invariant[OF k] show ?thesis by blast
qed

text \<open>
  C3, as the claim states it, fails for a call at an odd depth: called with two nodes at
  depth 1, as it is for a part of size 2 of a partition at depth 0, the composer emits
  \<open>U(a,a)\<close>, the text of a tree whose root carries \<open>U\<close>, not \<open>J\<close>.
\<close>

theorem alternation_root_counterexample:
  "generate_all_cotree_structures 2 1 = [''U(a,a)'']
   \<and> structure_text (Node UNION [Leaf, Leaf]) = ''U(a,a)''
   \<and> root_operator (Node UNION [Leaf, Leaf]) = Some UNION
   \<and> \<not> alternates_from 0 (Node UNION [Leaf, Leaf])"
proof -
  have "generate_all_cotree_structures 2 1 = [''U(a,a)'']" by code_simp
  then show ?thesis
    by (simp add: apply_cograph_operator_structure_def depth_operator_def)
qed

section \<open>The structure text determines the tree\<close>

lemma join_commas_Cons:
  "join_commas (x # xs) = x @ (if xs = [] then [] else CHR '','' # join_commas xs)"
  by (cases xs) simp_all

lemma structure_text_head:
  "\<exists>h r. structure_text t = h # r \<and> h \<noteq> CHR '','' \<and> h \<noteq> CHR '')''"
proof (cases t)
  case Leaf
  then show ?thesis by simp
next
  case (Node opr cs)
  then show ?thesis by (cases opr) (simp_all add: apply_cograph_operator_structure_def)
qed

lemma children_text_head:
  "\<exists>h r. join_commas (map structure_text (c # cs)) @ u = h # r \<and> h \<noteq> CHR '')''"
proof -
  from structure_text_head[of c] obtain h r where "structure_text c = h # r" "h \<noteq> CHR '')''"
    by blast
  then show ?thesis by (simp add: join_commas_Cons)
qed

lemma children_prefix_free:
  assumes step: "\<And>c t' r r'. c \<in> set cs \<Longrightarrow>
      structure_text c @ r = structure_text t' @ r' \<Longrightarrow> c = t' \<and> r = r'"
    and eq: "join_commas (map structure_text cs) @ CHR '')'' # r
           = join_commas (map structure_text cs') @ CHR '')'' # r'"
  shows "cs = cs' \<and> r = r'"
  using assms
proof (induction cs arbitrary: cs')
  case Nil
  show ?case
  proof (cases cs')
    case Nil
    with Nil.prems(2) show ?thesis by simp
  next
    case (Cons c' cs'')
    from children_text_head[of c' cs'' "CHR '')'' # r'"] Nil.prems(2) Cons
    show ?thesis by auto
  qed
next
  case (Cons c cs)
  show ?case
  proof (cases cs')
    case Nil
    from children_text_head[of c cs "CHR '')'' # r"] Cons.prems(2) Nil
    show ?thesis by auto
  next
    case (Cons c' cs'')
    let ?X = "(if cs = [] then [] else CHR '','' # join_commas (map structure_text cs)) @ CHR '')'' # r"
    let ?X' = "(if cs'' = [] then [] else CHR '','' # join_commas (map structure_text cs'')) @ CHR '')'' # r'"
    from Cons.prems(2) Cons have "structure_text c @ ?X = structure_text c' @ ?X'"
      by (simp add: join_commas_Cons)
    from Cons.prems(1)[OF _ this] have c: "c = c'" and X: "?X = ?X'" by simp_all
    show ?thesis
    proof (cases "cs = []")
      case True
      with X have "cs'' = [] \<and> r = r'" by (cases "cs'' = []") simp_all
      with True c Cons show ?thesis by simp
    next
      case False
      with X have ne: "cs'' \<noteq> []" by (cases "cs'' = []") simp_all
      with False X have "join_commas (map structure_text cs) @ CHR '')'' # r
           = join_commas (map structure_text cs'') @ CHR '')'' # r'"
        by simp
      moreover have "c0 = t0 \<and> u = u'"
        if "c0 \<in> set cs" and "structure_text c0 @ u = structure_text t0 @ u'" for c0 t0 u u'
        using Cons.prems(1)[of c0 u t0 u'] that by simp
      ultimately have "cs = cs'' \<and> r = r'" using Cons.IH[of cs''] by blast
      with c Cons show ?thesis by simp
    qed
  qed
qed

lemma structure_text_prefix_free:
  "structure_text t @ r = structure_text t' @ r' \<Longrightarrow> t = t' \<and> r = r'"
proof (induction t arbitrary: t' r r')
  case Leaf
  then show ?case
  proof (cases t')
    case Leaf
    with Leaf.prems show ?thesis by simp
  next
    case (Node opr' cs')
    with Leaf.prems show ?thesis
      by (cases opr') (simp_all add: apply_cograph_operator_structure_def)
  qed
next
  case (Node opr cs)
  show ?case
  proof (cases t')
    case Leaf
    with Node.prems show ?thesis
      by (cases opr) (simp_all add: apply_cograph_operator_structure_def)
  next
    case t': (Node opr' cs')
    from Node.prems t' have o: "opr = opr'"
      and eq: "join_commas (map structure_text cs) @ CHR '')'' # r
           = join_commas (map structure_text cs') @ CHR '')'' # r'"
      by (cases opr; cases opr'; simp add: apply_cograph_operator_structure_def)+
    from children_prefix_free[OF Node.IH eq] o t' show ?thesis by simp
  qed
qed

lemma structure_text_inject:
  "structure_text t = structure_text t' \<Longrightarrow> t = t'"
  using structure_text_prefix_free[of t "[]" t' "[]"] by simp

text \<open>So the tree of a string is the only one: the string \<open>U(a,a)\<close> that the composer emits
  for two nodes at depth 1 is the text of no tree whose root carries \<open>J\<close>.\<close>

lemma union_pair_text_tree:
  "structure_text t = ''U(a,a)'' \<Longrightarrow> t = Node UNION [Leaf, Leaf]"
proof -
  have "structure_text (Node UNION [Leaf, Leaf]) = ''U(a,a)''"
    by (simp add: apply_cograph_operator_structure_def)
  then show "structure_text t = ''U(a,a)'' \<Longrightarrow> t = Node UNION [Leaf, Leaf]"
    using structure_text_inject[of t "Node UNION [Leaf, Leaf]"] by simp
qed

lemma children_text_inject:
  assumes "apply_cograph_operator_structure o1 (map structure_text ts)
         = apply_cograph_operator_structure o1 (map structure_text ts')"
  shows "ts = ts'"
proof -
  from assms have "join_commas (map structure_text ts) @ CHR '')'' # []
     = join_commas (map structure_text ts') @ CHR '')'' # []"
    by (simp add: apply_cograph_operator_structure_def)
  from children_prefix_free[OF structure_text_prefix_free this] show ?thesis by simp
qed

section \<open>The enumeration has no duplicate\<close>

subsection \<open>Partitions\<close>

lemma partitions_upto_bound:
  "p \<in> set (partitions_upto n m) \<Longrightarrow> \<forall>k \<in> set p. k \<le> m"
proof (induction n m arbitrary: p rule: partitions_upto.induct)
  case (1 n)
  then show ?case by (simp split: if_splits)
next
  case (2 n m)
  from partitions_upto_Suc_cases[OF "2.prems"] show ?case
  proof
    assume "p \<in> set (partitions_upto n m)"
    from "2.IH"(2)[OF this] show ?thesis by auto
  next
    assume "Suc m \<le> n \<and> (\<exists>q \<in> set (partitions_upto (n - Suc m) (Suc m)). p = Suc m # q)"
    then obtain q where le: "Suc m \<le> n"
      and q: "q \<in> set (partitions_upto (n - Suc m) (Suc m))" "p = Suc m # q"
      by blast
    from "2.IH"(1)[OF le q(1)] q(2) show ?thesis by auto
  qed
qed

lemma partitions_upto_distinct: "distinct (partitions_upto n m)"
proof (induction n m rule: partitions_upto.induct)
  case (1 n)
  show ?case by simp
next
  case (2 n m)
  let ?A = "if Suc m \<le> n then map ((#) (Suc m)) (partitions_upto (n - Suc m) (Suc m)) else []"
  have A: "distinct ?A"
    using "2.IH"(1) by (simp add: distinct_map)
  have "set ?A \<inter> set (partitions_upto n m) = {}"
  proof (rule ccontr)
    assume "set ?A \<inter> set (partitions_upto n m) \<noteq> {}"
    then obtain p where "p \<in> set ?A" and p: "p \<in> set (partitions_upto n m)" by blast
    then have "Suc m \<in> set p" by (auto split: if_splits)
    with partitions_upto_bound[OF p] show False by auto
  qed
  with A "2.IH"(2) have "distinct (?A @ partitions_upto n m)" by simp
  then show ?case by (subst partitions_upto.simps(2))
qed

subsection \<open>The ordered product of duplicate-free streams\<close>

lemma combinations_with_repetition_distinct:
  "distinct xs \<Longrightarrow> distinct (combinations_with_repetition m xs)"
proof (induction m xs rule: combinations_with_repetition.induct)
  case (1 xs)
  show ?case by simp
next
  case (2 m)
  show ?case by simp
next
  case (3 m x xs)
  have "set (map ((#) x) (combinations_with_repetition m (x # xs)))
          \<inter> set (combinations_with_repetition (Suc m) xs) = {}"
  proof (rule ccontr)
    assume "\<not> ?thesis"
    then obtain c where "c \<in> set (map ((#) x) (combinations_with_repetition m (x # xs)))"
      and c: "c \<in> set (combinations_with_repetition (Suc m) xs)" by blast
    then have "x \<in> set c" by auto
    with combinations_with_repetition_members[OF c] "3.prems" show False by auto
  qed
  with 3 show ?case by (simp add: distinct_map)
qed

lemma product_terms_distinct:
  assumes "distinct A" and "distinct B" and "\<forall>c \<in> set A. length c = m"
  shows "distinct (concat (map (\<lambda>c. map ((@) c) B) A))"
  using assms
proof (induction A)
  case Nil
  show ?case by simp
next
  case (Cons a A)
  have "set (map ((@) a) B) \<inter> set (concat (map (\<lambda>c. map ((@) c) B) A)) = {}"
  proof (rule ccontr)
    assume "\<not> ?thesis"
    then obtain b c b' where "c \<in> set A" and "a @ b = c @ b'" by auto
    with Cons.prems(3) have "a = c" by simp
    with \<open>c \<in> set A\<close> Cons.prems(1) show False by simp
  qed
  with Cons show ?case by (simp add: distinct_map inj_on_def)
qed

lemma product_of_groups_distinct:
  "\<forall>g \<in> set gs. distinct (fst g) \<Longrightarrow> distinct (product_of_groups gs)"
proof (induction gs)
  case Nil
  show ?case by simp
next
  case (Cons g gs)
  obtain s m where g: "g = (s, m)" by (cases g)
  with Cons.prems have "distinct (combinations_with_repetition m s)"
    by (simp add: combinations_with_repetition_distinct)
  moreover from Cons have "distinct (product_of_groups gs)" by simp
  moreover have "\<forall>c \<in> set (combinations_with_repetition m s). length c = m"
    using combinations_with_repetition_members by blast
  ultimately show ?case
    unfolding g using product_terms_distinct[of "combinations_with_repetition m s" "product_of_groups gs" m]
    by simp
qed

lemma group_runs_fst: "(x, m) \<in> set (group_runs xs) \<Longrightarrow> x \<in> set xs"
proof (induction xs arbitrary: x m)
  case Nil
  then show ?case by simp
next
  case (Cons y ys)
  show ?case
  proof (cases "group_runs ys")
    case Nil
    with Cons.prems show ?thesis by simp
  next
    case gr: (Cons g gs)
    obtain z k where g: "g = (z, k)" by (cases g)
    from gr g have z: "z \<in> set ys" using Cons.IH[of z k] by simp
    from gr g have rest: "(x, m) \<in> set gs \<Longrightarrow> x \<in> set ys" using Cons.IH[of x m] by simp
    from Cons.prems gr g z rest show ?thesis by (auto split: if_splits)
  qed
qed

lemma ordered_product_distinct:
  assumes "\<forall>s \<in> set streams. distinct s"
  shows "distinct (generate_ordered_cartesian_product streams)"
proof -
  from assms have "\<forall>g \<in> set (group_runs streams). distinct (fst g)"
    using group_runs_fst[of _ _ streams] by auto
  then show ?thesis
    by (simp add: generate_ordered_cartesian_product_def product_of_groups_distinct)
qed

lemma distinct_concat_map:
  assumes "distinct ps" and "\<forall>p \<in> set ps. distinct (f p)"
    and "\<forall>p \<in> set ps. \<forall>q \<in> set ps. p \<noteq> q \<longrightarrow> set (f p) \<inter> set (f q) = {}"
  shows "distinct (concat (map f ps))"
  using assms
proof (induction ps)
  case Nil
  show ?case by simp
next
  case (Cons p ps)
  have "set (f p) \<inter> set (concat (map f ps)) = {}"
  proof (rule ccontr)
    assume "\<not> ?thesis"
    then obtain x q where "x \<in> set (f p)" "q \<in> set ps" "x \<in> set (f q)" by auto
    with Cons.prems(1,3) show False by auto
  qed
  with Cons show ?case by simp
qed

subsection \<open>The composer\<close>

lemma combination_trees:
  assumes "c \<in> set (generate_ordered_cartesian_product (child_streams p d))"
  shows "\<exists>ts. map structure_text ts = c \<and> map leaf_count ts = p"
proof -
  from ordered_product_members[OF assms]
  have "list_all2 (\<lambda>x k. x \<in> set (generate_all_cotree_structures k (d + 1))) c p"
    by (simp add: child_streams_def list_all2_map2)
  then have "list_all2 (\<lambda>x k. \<exists>t. structure_text t = x \<and> True \<and> leaf_count t = k) c p"
  proof (rule list_all2_mono)
    fix x k
    assume "x \<in> set (generate_all_cotree_structures k (d + 1))"
    from composer_emits_trees[OF this]
    show "\<exists>t. structure_text t = x \<and> True \<and> leaf_count t = k" by auto
  qed
  from list_all2_trees[OF this] show ?thesis by blast
qed

lemma combination_inject:
  assumes c: "c \<in> set (generate_ordered_cartesian_product (child_streams p d))"
    and c': "c' \<in> set (generate_ordered_cartesian_product (child_streams q d))"
    and eq: "apply_cograph_operator_structure o1 c = apply_cograph_operator_structure o1 c'"
  shows "c = c' \<and> p = q"
proof -
  from combination_trees[OF c] obtain ts where ts: "map structure_text ts = c" "map leaf_count ts = p"
    by blast
  from combination_trees[OF c'] obtain ts' where ts': "map structure_text ts' = c'" "map leaf_count ts' = q"
    by blast
  from eq ts ts' have "ts = ts'" using children_text_inject[of o1 ts ts'] by simp
  with ts ts' show ?thesis by auto
qed

lemma composer_distinct: "distinct (generate_all_cotree_structures n d)"
proof (induction n d rule: generate_all_cotree_structures.induct)
  case (1 n d)
  show ?case
  proof (cases "n = 1")
    case True
    then show ?thesis by (subst generate_all_cotree_structures.simps) simp
  next
    case False
    let ?o = "if d mod 2 = 0 then ''J'' else ''U''"
    let ?f = "\<lambda>parts. if length parts = 1 then []
             else map (apply_cograph_operator_structure ?o)
                    (generate_ordered_cartesian_product (child_streams parts d))"
    let ?ps = "generate_all_unique_integer_partitions n"
    have ps: "distinct ?ps"
      by (simp add: generate_all_unique_integer_partitions_def partitions_upto_distinct)
    have each: "\<forall>p \<in> set ?ps. distinct (?f p)"
    proof
      fix p :: "nat list"
      assume p: "p \<in> set ?ps"
      show "distinct (?f p)"
      proof (cases "length p = 1")
        case True
        then show ?thesis by simp
      next
        case l: False
        from "1.IH"[OF False p l] have "\<forall>s \<in> set (child_streams p d). distinct s"
          by (auto simp: child_streams_def)
        then have "distinct (generate_ordered_cartesian_product (child_streams p d))"
          by (rule ordered_product_distinct)
        moreover have "inj_on (apply_cograph_operator_structure ?o)
            (set (generate_ordered_cartesian_product (child_streams p d)))"
          by (rule inj_onI) (use combination_inject in blast)
        ultimately show ?thesis using l by (simp add: distinct_map)
      qed
    qed
    have apart: "\<forall>p \<in> set ?ps. \<forall>q \<in> set ?ps. p \<noteq> q \<longrightarrow> set (?f p) \<inter> set (?f q) = {}"
    proof (intro ballI impI)
      fix p q :: "nat list"
      assume pq: "p \<noteq> q"
      show "set (?f p) \<inter> set (?f q) = {}"
      proof (rule ccontr)
        assume "\<not> ?thesis"
        then obtain s where "s \<in> set (?f p)" "s \<in> set (?f q)" by blast
        then obtain c c' where "c \<in> set (generate_ordered_cartesian_product (child_streams p d))"
          and "c' \<in> set (generate_ordered_cartesian_product (child_streams q d))"
          and "apply_cograph_operator_structure ?o c = apply_cograph_operator_structure ?o c'"
          by (auto split: if_splits)
        from combination_inject[OF this] pq show False by simp
      qed
    qed
    from distinct_concat_map[OF ps each apart] False show ?thesis
      by (subst composer_child_streams) simp
  qed
qed

section \<open>The graph of a structure\<close>

text \<open>
  Modelled from the spec: the graph derivation that the encoder of the absent module
  \<open>adjacency_g6\<close> performs. A graph is its number of vertices, numbered from 0, and its
  edge list. A leaf is a single vertex; a \<open>UNION\<close> node's graph is the disjoint union of
  its children's graphs; a \<open>JOIN\<close> node's graph has, besides the edges inside each child,
  an edge from every vertex of one child to every vertex of every other child. The
  vertices of a node are those of its children from left to right.
\<close>

type_synonym graph = "nat \<times> (nat \<times> nat) list"

definition shift_edges :: "nat \<Rightarrow> (nat \<times> nat) list \<Rightarrow> (nat \<times> nat) list" where
  "shift_edges k es = map (\<lambda>(u, v). (u + k, v + k)) es"

definition cross_edges :: "nat \<Rightarrow> nat \<Rightarrow> (nat \<times> nat) list" where
  "cross_edges n1 n2 = concat (map (\<lambda>u. map (\<lambda>v. (u, n1 + v)) [0..<n2]) [0..<n1])"

fun combine_graphs :: "cograph_operator \<Rightarrow> graph \<Rightarrow> graph \<Rightarrow> graph" where
  "combine_graphs UNION (n1, e1) (n2, e2) = (n1 + n2, e1 @ shift_edges n1 e2)"
| "combine_graphs JOIN (n1, e1) (n2, e2) =
     (n1 + n2, e1 @ shift_edges n1 e2 @ cross_edges n1 n2)"

fun derived_graph :: "cotree \<Rightarrow> graph"
  and children_graph :: "cograph_operator \<Rightarrow> cotree list \<Rightarrow> graph" where
  "derived_graph Leaf = (1, [])"
| "derived_graph (Node opr cs) = children_graph opr cs"
| "children_graph opr [] = (0, [])"
| "children_graph opr (c # cs) =
     combine_graphs opr (derived_graph c) (children_graph opr cs)"

definition adjacent :: "graph \<Rightarrow> nat \<Rightarrow> nat \<Rightarrow> bool" where
  "adjacent g u v \<longleftrightarrow> (u, v) \<in> set (snd g) \<or> (v, u) \<in> set (snd g)"

text \<open>A graph is connected when every vertex is reachable from every vertex along
  edges.\<close>

definition connected_graph :: "graph \<Rightarrow> bool" where
  "connected_graph g \<longleftrightarrow>
     (\<forall>u < fst g. \<forall>v < fst g. (u, v) \<in> {(x, y). adjacent g x y}\<^sup>*)"

lemma fst_combine_graphs:
  "fst (combine_graphs opr g1 g2) = fst g1 + fst g2"
  by (cases opr; cases g1; cases g2) simp_all

lemma derived_graph_vertices:
  "fst (derived_graph t) = leaf_count t"
  "fst (children_graph opr cs) = sum_list (map leaf_count cs)"
  by (induction t and opr cs rule: derived_graph_children_graph.induct)
     (simp_all add: fst_combine_graphs)

lemma well_formed_leaf_count: "well_formed t \<Longrightarrow> 0 < leaf_count t"
proof (induction t)
  case Leaf
  show ?case by simp
next
  case (Node opr cs)
  from Node.prems obtain c cs' where cs: "cs = c # cs'" by (cases cs) auto
  with Node have "0 < leaf_count c" by simp
  with cs show ?case by simp
qed

lemma cross_edges_member:
  "u < n1 \<Longrightarrow> v < n2 \<Longrightarrow> (u, n1 + v) \<in> set (cross_edges n1 n2)"
  by (force simp: cross_edges_def)

lemma join_adjacent:
  assumes "fst g1 = n1" and "fst g2 = n2" and "u < n1" and "n1 \<le> w" and "w < n1 + n2"
  shows "adjacent (combine_graphs JOIN g1 g2) u w"
proof -
  from assms(4,5) have "w - n1 < n2" and w: "w = n1 + (w - n1)" by simp_all
  with assms(3) have "(u, n1 + (w - n1)) \<in> set (cross_edges n1 n2)"
    by (intro cross_edges_member)
  with w have "(u, w) \<in> set (cross_edges n1 n2)" by simp
  with assms(1,2) show ?thesis
    by (cases g1; cases g2) (simp add: adjacent_def)
qed

lemma adjacent_sym: "adjacent g u v \<Longrightarrow> adjacent g v u"
  by (auto simp: adjacent_def)

lemma join_connected:
  assumes n1: "fst g1 = n1" and n2: "fst g2 = n2" and p1: "0 < n1" and p2: "0 < n2"
  shows "connected_graph (combine_graphs JOIN g1 g2)"
proof -
  let ?g = "combine_graphs JOIN g1 g2"
  let ?R = "{(x, y). adjacent ?g x y}"
  have across: "(u, w) \<in> ?R \<and> (w, u) \<in> ?R" if "u < n1" "n1 \<le> w" "w < n1 + n2" for u w
    using join_adjacent[OF n1 n2 that] by (simp add: adjacent_sym)
  have "(u, v) \<in> ?R\<^sup>*" if u: "u < n1 + n2" and v: "v < n1 + n2" for u v
  proof (cases "u < n1")
    case ul: True
    show ?thesis
    proof (cases "v < n1")
      case True
      from across[of u n1] across[of v n1] ul True p2
      have "(u, n1) \<in> ?R" and "(n1, v) \<in> ?R" by simp_all
      then show ?thesis by (meson converse_rtrancl_into_rtrancl r_into_rtrancl)
    next
      case False
      with across[of u v] ul v show ?thesis by auto
    qed
  next
    case uh: False
    show ?thesis
    proof (cases "v < n1")
      case True
      with across[of v u] uh u show ?thesis by auto
    next
      case False
      from across[of 0 u] across[of 0 v] uh False u v p1
      have "(u, 0) \<in> ?R" and "(0, v) \<in> ?R" by simp_all
      then show ?thesis by (meson converse_rtrancl_into_rtrancl r_into_rtrancl)
    qed
  qed
  then show ?thesis
    by (simp add: connected_graph_def fst_combine_graphs n1 n2)
qed

lemma join_root_connected:
  assumes "well_formed t" and "root_operator t \<noteq> Some UNION"
  shows "connected_graph (derived_graph t)"
proof (cases t)
  case Leaf
  then show ?thesis by (simp add: connected_graph_def)
next
  case (Node opr cs)
  with assms(2) have opr: "opr = JOIN" by (cases opr) simp_all
  from Node assms(1) obtain c d cs' where cs: "cs = c # d # cs'"
    by (cases cs; cases "tl cs") auto
  from Node cs assms(1) have "0 < leaf_count c" and "0 < leaf_count d"
    by (simp_all add: well_formed_leaf_count)
  then have "0 < fst (derived_graph c)" and "0 < fst (children_graph JOIN (d # cs'))"
    by (simp_all add: derived_graph_vertices fst_combine_graphs)
  from join_connected[OF refl refl this] Node opr cs show ?thesis by simp
qed

section \<open>The connected enumeration\<close>

text \<open>
  C2. For every leaf count \<open>n \<ge> 1\<close>, the connected enumeration
  \<open>generate_all_cotree_structures n 0\<close> emits no string twice, and every string it emits
  is the canonical text of a tree whose derived graph is connected.
\<close>

theorem connected_enumeration:
  assumes "0 < n"
  shows "distinct (generate_all_cotree_structures n 0)
    \<and> (\<forall>s \<in> set (generate_all_cotree_structures n 0).
          \<exists>t. structure_text t = s \<and> connected_graph (derived_graph t))"
proof (intro conjI ballI)
  show "distinct (generate_all_cotree_structures n 0)" by (rule composer_distinct)
next
  fix s
  assume "s \<in> set (generate_all_cotree_structures n 0)"
  from composer_emits_trees[OF this] assms obtain t
    where t: "structure_text t = s" "alternates_from 0 t" "well_formed t" by blast
  from t(2) have "root_operator t \<noteq> Some UNION"
    by (cases t) (simp_all add: depth_operator_def)
  from join_root_connected[OF t(3) this] t(1)
  have "structure_text t = s \<and> connected_graph (derived_graph t)" by simp
  then show "\<exists>t. structure_text t = s \<and> connected_graph (derived_graph t)"
    by (rule exI[of _ t])
qed

theorem connected_enumeration_witness:
  "(0::nat) < 3
   \<and> generate_all_cotree_structures 3 0 = [''J(U(a,a),a)'', ''J(a,a,a)'']
   \<and> distinct (generate_all_cotree_structures 3 0)
   \<and> (\<exists>t. structure_text t = ''J(U(a,a),a)'' \<and> connected_graph (derived_graph t))"
proof -
  have e: "generate_all_cotree_structures 3 0 = [''J(U(a,a),a)'', ''J(a,a,a)'']"
    by code_simp
  have p: "(0::nat) < 3" by simp
  from connected_enumeration[OF p] e show ?thesis by simp
qed

section \<open>The pipeline orchestrator (\<open>src/cograph_generator/generator.py\<close>)\<close>

subsection \<open>Files and lines\<close>

text \<open>
  A file system maps a path to the text of the file there, a string of characters with
  codes below 256; the text the pipeline writes is ASCII. Files are opened in text mode:
  a write leaves \<open>\n\<close> as it is (the line separator of POSIX), a read takes \<open>\n\<close>, \<open>\r\<close> and
  \<open>\r\n\<close> alike for the end of a line and gives \<open>\n\<close> for each. Storage operations are
  taken to succeed: a failing \<open>open\<close>, \<open>write\<close> or \<open>remove\<close> is outside the model.
\<close>

type_synonym filesystem = "string \<rightharpoonup> string"

abbreviation newline :: char where
  "newline \<equiv> CHR 0x0A"

abbreviation carriage_return :: char where
  "carriage_return \<equiv> CHR 0x0D"

text \<open>\<open>f_in.readline()\<close>: the text up to and including the next end of line, given as
  \<open>\n\<close>, or the rest of the file when there is none; the empty string at the end of the
  file. The second component is what remains to be read.\<close>

fun readline :: "string \<Rightarrow> string \<times> string" where
  "readline [] = ([], [])"
| "readline (c # cs) =
     (if c = newline then ([newline], cs)
      else if c = carriage_return
      then ([newline], if cs \<noteq> [] \<and> hd cs = newline then tl cs else cs)
      else (c # fst (readline cs), snd (readline cs)))"

lemma readline_examples:
  "readline [CHR ''a'', newline, CHR ''b''] = ([CHR ''a'', newline], [CHR ''b''])"
  "readline [CHR ''a'', carriage_return, CHR ''b''] = ([CHR ''a'', newline], [CHR ''b''])"
  "readline [CHR ''a'', carriage_return, newline, CHR ''b''] = ([CHR ''a'', newline], [CHR ''b''])"
  "readline [CHR ''a'', CHR ''b''] = ([CHR ''a'', CHR ''b''], [])"
  by simp_all

text \<open>\<open>(f_in.readline() for _ in range(batch_size))\<close>: that many calls, whatever they
  return.\<close>

fun read_lines :: "nat \<Rightarrow> string \<Rightarrow> string list \<times> string" where
  "read_lines 0 content = ([], content)"
| "read_lines (Suc k) content =
     (fst (readline content) # fst (read_lines k (snd (readline content))),
      snd (read_lines k (snd (readline content))))"

text \<open>\<open>str.strip()\<close> removes the leading and the trailing white space; below 256 the
  white space characters of \<open>str.isspace\<close> are the codes 9 to 13, 28 to 32, 133 and 160.\<close>

definition is_space :: "char \<Rightarrow> bool" where
  "is_space c \<longleftrightarrow> c \<in> set [CHR 0x09, CHR 0x0A, CHR 0x0B, CHR 0x0C, CHR 0x0D,
                              CHR 0x1C, CHR 0x1D, CHR 0x1E, CHR 0x1F, CHR 0x20,
                              CHR 0x85, CHR 0xA0]"

definition strip :: "string \<Rightarrow> string" where
  "strip s = rev (dropWhile is_space (rev (dropWhile is_space s)))"

text \<open>The text phase 1 leaves in the scratch file: \<open>temp.write(structure + "\n")\<close> for
  every structure.\<close>

definition scratch_text :: "string list \<Rightarrow> string" where
  "scratch_text structures = concat (map (\<lambda>structure. structure @ [newline]) structures)"

subsection \<open>The worker pool\<close>

text \<open>
  What the pipeline can raise: \<open>multiprocessing.Pool(processes)\<close> raises \<open>ValueError\<close>
  when \<open>processes < 1\<close>; \<open>pool.map\<close> re-raises, in the caller, the exception of a worker.
\<close>

datatype 'e pipeline_error = PoolValueError | WorkerError 'e

text \<open>
  The encoder worker \<open>_structure_to_g6_optimized_worker\<close> belongs to the absent module
  \<open>adjacency_g6\<close>; the orchestrator takes it as the parameter \<open>worker\<close>, a function from a
  structure to its graph6 line or to the exception it raises. \<open>pool.map\<close> returns the
  results in the order of the batch when every call succeeds. When calls fail, the
  exception that reaches the caller is that of one failing item of the batch; which one
  depends on the scheduling of the chunks, the parameter \<open>pick\<close>.
\<close>

definition pool_map ::
  "('e list \<Rightarrow> 'e) \<Rightarrow> (string \<Rightarrow> 'e + string) \<Rightarrow> int \<Rightarrow> string list
     \<Rightarrow> 'e pipeline_error + string list" where
  "pool_map pick worker num_processes batch =
     (if num_processes < 1 then Inl PoolValueError
      else let outcomes = map worker batch;
               failures = concat (map (\<lambda>r. case r of Inl e \<Rightarrow> [e] | Inr g \<Rightarrow> []) outcomes);
               graph6_results = concat (map (\<lambda>r. case r of Inl e \<Rightarrow> [] | Inr g \<Rightarrow> [g]) outcomes)
           in if failures = [] then Inr graph6_results
              else Inl (WorkerError (pick failures)))"

subsection \<open>Phase 2: the batch loop\<close>

lemma readline_length: "length (fst (readline s)) + length (snd (readline s)) \<le> length s"
  by (induction s) auto

lemma read_lines_length:
  "sum_list (map length (fst (read_lines k s))) + length (snd (read_lines k s)) \<le> length s"
proof (induction k arbitrary: s)
  case 0
  show ?case by simp
next
  case (Suc k)
  from Suc[of "snd (readline s)"] readline_length[of s] show ?case by simp
qed

lemma strip_Nil: "strip [] = []"
  by (simp add: strip_def)

lemma length_le_sum_lengths: "l \<in> set ls \<Longrightarrow> length l \<le> sum_list (map length ls)"
  by (induction ls) auto

lemma batch_consumes:
  assumes "filter (\<lambda>s. s \<noteq> []) (map strip (fst (read_lines k content))) \<noteq> []"
  shows "length (snd (read_lines k content)) < length content"
proof -
  from assms obtain l where l: "l \<in> set (fst (read_lines k content))" and "strip l \<noteq> []"
    by (auto simp: filter_empty_conv)
  then have "l \<noteq> []" using strip_Nil by auto
  then have "0 < length l" by simp
  moreover from l have "length l \<le> sum_list (map length (fst (read_lines k content)))"
    by (rule length_le_sum_lengths)
  ultimately show ?thesis using read_lines_length[of k content] by linarith
qed

text \<open>
  The \<open>while True\<close> loop over the open scratch file. One pass reads \<open>batch_size\<close> lines,
  strips them and drops the empty ones; an empty batch ends the loop; otherwise a pool of
  \<open>num_processes\<close> workers maps the encoder over the batch and every result is written,
  followed by a newline. The function returns the list of the strings written to the
  output, in order, and the exception that ended the loop, if any. No result of a failing
  batch is written: \<open>pool.map\<close> raises before the first \<open>f_out.write\<close> of the batch.
\<close>

function process_batches ::
  "('e list \<Rightarrow> 'e) \<Rightarrow> (string \<Rightarrow> 'e + string) \<Rightarrow> int \<Rightarrow> int \<Rightarrow> string
     \<Rightarrow> string list \<times> 'e pipeline_error option" where
  "process_batches pick worker batch_size num_processes content =
     (let batch = filter (\<lambda>s. s \<noteq> [])
                    (map strip (fst (read_lines (nat batch_size) content)))
      in if batch = [] then ([], None)
         else case pool_map pick worker num_processes batch of
                Inl e \<Rightarrow> ([], Some e)
              | Inr graph6_results \<Rightarrow>
                  (map (\<lambda>g6. g6 @ [newline]) graph6_results
                     @ fst (process_batches pick worker batch_size num_processes
                              (snd (read_lines (nat batch_size) content))),
                   snd (process_batches pick worker batch_size num_processes
                          (snd (read_lines (nat batch_size) content)))))"
  by pat_completeness simp
termination
proof (relation "measure (\<lambda>(pick, worker, batch_size, num_processes, content). length content)")
  show "wf (measure (\<lambda>(pick, worker, batch_size, num_processes, content). length (content :: string)))"
    by simp
qed (simp_all add: batch_consumes)

declare process_batches.simps [simp del]

subsection \<open>The two entry points\<close>

text \<open>
  \<open>generate_cographs_final_g6\<close>. The two structure generators belong to the absent
  module \<open>structures\<close> and are parameters, as is the worker; \<open>temp_filename\<close> is the name
  \<open>tempfile.NamedTemporaryFile(delete=False)\<close> chose. Phase 1 writes the structures to
  the scratch file; then the scratch file is opened for reading and the output file is
  opened for writing, which empties it; the batch loop appends to the output; when the
  loop ends without an exception the scratch file is removed and the output path is
  returned. An exception leaves the function at once: the files stay as they are. The
  result is the file system after the call and the returned path or the exception.
\<close>

definition generate_cographs_final_g6 ::
  "(nat \<Rightarrow> nat \<Rightarrow> string list) \<Rightarrow> (nat \<Rightarrow> nat \<Rightarrow> string list)
     \<Rightarrow> (string \<Rightarrow> 'e + string) \<Rightarrow> ('e list \<Rightarrow> 'e) \<Rightarrow> string
     \<Rightarrow> nat \<Rightarrow> string \<Rightarrow> int \<Rightarrow> int \<Rightarrow> bool \<Rightarrow> filesystem
     \<Rightarrow> filesystem \<times> ('e pipeline_error + string)" where
  "generate_cographs_final_g6 connected_generator all_generator worker pick temp_filename
       node_count output_filename batch_size num_processes connected_only fs =
     (let generator = (if connected_only then connected_generator else all_generator);
          fs1 = fs(temp_filename \<mapsto> scratch_text (generator node_count 0));
          fs2 = fs1(output_filename \<mapsto> []);
          content = (case fs2 temp_filename of Some text \<Rightarrow> text | None \<Rightarrow> []);
          run = process_batches pick worker batch_size num_processes content;
          fs3 = fs2(output_filename \<mapsto> concat (fst run))
      in case snd run of
           Some e \<Rightarrow> (fs3, Inl e)
         | None \<Rightarrow> (fs3(temp_filename := None), Inr output_filename))"

subsection \<open>Reading the scratch file back\<close>

text \<open>A structure line: not empty and free of white space, as every canonical structure
  text is.\<close>

definition structure_line :: "string \<Rightarrow> bool" where
  "structure_line s \<longleftrightarrow> s \<noteq> [] \<and> (\<forall>c \<in> set s. \<not> is_space c)"

lemma structure_line_no_newline:
  "structure_line s \<Longrightarrow> newline \<notin> set s \<and> carriage_return \<notin> set s"
  by (auto simp: structure_line_def is_space_def)

lemma readline_line:
  "newline \<notin> set s \<and> carriage_return \<notin> set s \<Longrightarrow>
     readline (s @ newline # rest) = (s @ [newline], rest)"
  by (induction s) auto

lemma read_lines_end: "read_lines k [] = (replicate k [], [])"
  by (induction k) simp_all

lemma scratch_text_Cons:
  "scratch_text (s # ss) = s @ newline # scratch_text ss"
  by (simp add: scratch_text_def)

lemma read_lines_scratch:
  assumes "\<forall>s \<in> set ss. newline \<notin> set s \<and> carriage_return \<notin> set s"
  shows "read_lines k (scratch_text ss)
     = (map (\<lambda>s. s @ [newline]) (take k ss) @ replicate (k - length ss) [],
        scratch_text (drop k ss))"
  using assms
proof (induction k arbitrary: ss)
  case 0
  show ?case by simp
next
  case (Suc k)
  show ?case
  proof (cases ss)
    case Nil
    then show ?thesis
      using read_lines_end[of "Suc k"] by (simp add: scratch_text_def)
  next
    case (Cons s ss')
    with Suc.prems have s: "newline \<notin> set s \<and> carriage_return \<notin> set s"
      and ss': "\<forall>s \<in> set ss'. newline \<notin> set s \<and> carriage_return \<notin> set s"
      by simp_all
    from readline_line[OF s, of "scratch_text ss'"] Suc.IH[OF ss'] Cons
    show ?thesis by (simp add: scratch_text_Cons)
  qed
qed

lemma strip_line:
  assumes "structure_line s"
  shows "strip (s @ [newline]) = s"
proof -
  from assms obtain c cs where s: "s = c # cs" and c: "\<not> is_space c"
    by (cases s) (auto simp: structure_line_def)
  from assms have "s \<noteq> []" and l: "\<not> is_space (last s)"
    by (auto simp: structure_line_def)
  then obtain d ds where r: "rev s = d # ds" and d: "\<not> is_space d"
    by (cases "rev s") (auto simp: last_rev[symmetric] simp del: last_rev)
  have n: "is_space newline" by (simp add: is_space_def)
  from s c have "dropWhile is_space (s @ [newline]) = s @ [newline]" by simp
  moreover from r d n have "dropWhile is_space (rev (s @ [newline])) = rev s" by simp
  ultimately show ?thesis by (simp add: strip_def)
qed

lemma batch_of_scratch:
  assumes "\<forall>s \<in> set ss. structure_line s"
  shows "filter (\<lambda>s. s \<noteq> []) (map strip (fst (read_lines k (scratch_text ss)))) = take k ss"
    and "snd (read_lines k (scratch_text ss)) = scratch_text (drop k ss)"
proof -
  from assms have nl: "\<forall>s \<in> set ss. newline \<notin> set s \<and> carriage_return \<notin> set s"
    using structure_line_no_newline by blast
  from assms have t: "\<forall>s \<in> set (take k ss). structure_line s"
    by (meson in_set_takeD)
  then have "map strip (map (\<lambda>s. s @ [newline]) (take k ss)) = take k ss"
    by (simp add: strip_line map_idI)
  moreover from t have "filter (\<lambda>s. s \<noteq> []) (take k ss) = take k ss"
    by (auto simp: structure_line_def filter_id_conv)
  ultimately show "filter (\<lambda>s. s \<noteq> []) (map strip (fst (read_lines k (scratch_text ss)))) = take k ss"
    by (simp add: read_lines_scratch[OF nl] strip_Nil)
  show "snd (read_lines k (scratch_text ss)) = scratch_text (drop k ss)"
    by (simp add: read_lines_scratch[OF nl])
qed

lemma pool_map_success:
  assumes "1 \<le> num_processes" and "\<forall>s \<in> set batch. worker s = Inr (g6 s)"
  shows "pool_map pick worker num_processes batch = Inr (map g6 batch)"
proof -
  from assms(2) have "concat (map (\<lambda>r. case r of Inl e \<Rightarrow> [e] | Inr g \<Rightarrow> []) (map worker batch)) = []"
    and "concat (map (\<lambda>r. case r of Inl e \<Rightarrow> [] | Inr g \<Rightarrow> [g]) (map worker batch)) = map g6 batch"
    by (induction batch) simp_all
  with assms(1) show ?thesis by (simp add: pool_map_def)
qed


lemma process_batches_success:
  assumes "1 \<le> batch_size" and "1 \<le> num_processes"
    and "\<forall>s \<in> set ss. structure_line s" and "\<forall>s \<in> set ss. worker s = Inr (g6 s)"
  shows "process_batches pick worker batch_size num_processes (scratch_text ss)
     = (map (\<lambda>s. g6 s @ [newline]) ss, None)"
  using assms(3,4)
proof (induction "length ss" arbitrary: ss rule: less_induct)
  case less
  let ?k = "nat batch_size"
  from assms(1) have k: "0 < ?k" by simp
  note b = batch_of_scratch[OF less.prems(1), of ?k]
  show ?case
  proof (cases "ss = []")
    case True
    with b show ?thesis by (subst process_batches.simps) simp
  next
    case False
    with k have ne: "take ?k ss \<noteq> []" by (cases ss) (auto simp: take_Suc_conv_app_nth gr0_conv_Suc)
    from less.prems(2) have "\<forall>s \<in> set (take ?k ss). worker s = Inr (g6 s)"
      by (meson in_set_takeD)
    note pm = pool_map_success[OF assms(2) this, of pick]
    from False k have "length (drop ?k ss) < length ss" by simp
    moreover from less.prems have "\<forall>s \<in> set (drop ?k ss). structure_line s"
      and "\<forall>s \<in> set (drop ?k ss). worker s = Inr (g6 s)"
      by (meson in_set_dropD)+
    ultimately have ih: "process_batches pick worker batch_size num_processes (scratch_text (drop ?k ss))
        = (map (\<lambda>s. g6 s @ [newline]) (drop ?k ss), None)"
      by (rule less.hyps)
    have "map (\<lambda>s. g6 s @ [newline]) (take ?k ss) @ map (\<lambda>s. g6 s @ [newline]) (drop ?k ss)
        = map (\<lambda>s. g6 s @ [newline]) ss"
      by (simp flip: map_append)
    with ne b pm ih show ?thesis
      by (subst process_batches.simps) (simp add: comp_def)
  qed
qed


lemma scratch_text_map:
  "concat (map (\<lambda>s. g6 s @ [newline]) ss) = scratch_text (map g6 ss)"
  by (simp add: scratch_text_def comp_def)

subsection \<open>The composer's structures are structure lines\<close>

lemma join_commas_chars:
  "set (join_commas xs) \<subseteq> insert CHR '','' (\<Union>x \<in> set xs. set x)"
  by (induction xs rule: join_commas.induct) auto

lemma structure_text_chars:
  "set (structure_text t) \<subseteq> set ''aJU(),''"
proof (induction t)
  case Leaf
  show ?case by simp
next
  case (Node opr cs)
  have "set (join_commas (map structure_text cs)) \<subseteq> set ''aJU(),''"
    using join_commas_chars[of "map structure_text cs"] Node.IH by auto
  then show ?case
    by (cases opr) (auto simp: apply_cograph_operator_structure_def)
qed

lemma structure_text_line: "structure_line (structure_text t)"
proof -
  from structure_text_head[of t] have "structure_text t \<noteq> []" by auto
  moreover have "\<not> is_space c" if "c \<in> set (structure_text t)" for c
    using structure_text_chars[of t] that by (auto simp: is_space_def)
  ultimately show ?thesis by (simp add: structure_line_def)
qed

lemma composer_lines:
  "s \<in> set (generate_all_cotree_structures n d) \<Longrightarrow> structure_line s"
  using composer_emits_trees[of s n d] structure_text_line by auto

section \<open>Streaming to a file\<close>

text \<open>
  C5. When every structure the selected generator yields is a structure line and the
  worker encodes each of them, then for every batch size and every number of workers of at
  least 1 the batch loop, run on the scratch text (the structures, one per line), writes
  the encodings of the structures one per line in the order of the scratch file: the
  string written at position \<open>k\<close> is the encoding of the structure at line \<open>k\<close>, and the
  output file ends as these lines.
\<close>

theorem batch_mode_ordering:
  assumes "1 \<le> batch_size" and "1 \<le> num_processes"
    and "structures = (if connected_only then connected_generator else all_generator) node_count 0"
    and "\<forall>s \<in> set structures. structure_line s"
    and "\<forall>s \<in> set structures. worker s = Inr (g6 s)"
    and "temp_filename \<noteq> output_filename"
  shows "process_batches pick worker batch_size num_processes (scratch_text structures)
           = (map (\<lambda>s. g6 s @ [newline]) structures, None)
     \<and> generate_cographs_final_g6 connected_generator all_generator worker pick temp_filename
           node_count output_filename batch_size num_processes connected_only fs
         = ((fs(output_filename \<mapsto> scratch_text (map g6 structures)))(temp_filename := None),
            Inr output_filename)"
proof -
  note run = process_batches_success[OF assms(1,2,4,5), of pick]
  have "fs(temp_filename \<mapsto> scratch_text structures,
           output_filename \<mapsto> scratch_text (map g6 structures), temp_filename := None)
      = (fs(output_filename \<mapsto> scratch_text (map g6 structures)))(temp_filename := None)"
    using assms(6) by (auto simp: fun_eq_iff)
  with run assms(3,6) show ?thesis
    by (auto simp: generate_cographs_final_g6_def Let_def scratch_text_map)
qed

theorem batch_mode_ordering_witness:
  "(1::int) \<le> 1 \<and> (1::int) \<le> 2
   \<and> generate_all_cotree_structures 3 0 = [''J(U(a,a),a)'', ''J(a,a,a)'']
   \<and> ''tmp'' \<noteq> ''out''
   \<and> process_batches (hd :: string list \<Rightarrow> string) (\<lambda>s. Inr (''g6:'' @ s)) 1 2
        (scratch_text [''J(U(a,a),a)'', ''J(a,a,a)''])
      = ([''g6:J(U(a,a),a)'' @ [newline], ''g6:J(a,a,a)'' @ [newline]], None)
   \<and> generate_cographs_final_g6 generate_all_cotree_structures (\<lambda>n d. [])
        (\<lambda>s. Inr (''g6:'' @ s)) (hd :: string list \<Rightarrow> string) ''tmp'' 3 ''out'' 1 2 True Map.empty
      = ((Map.empty(''out'' \<mapsto> scratch_text [''g6:J(U(a,a),a)'', ''g6:J(a,a,a)'']))(''tmp'' := None),
         Inr ''out'')"
proof -
  have e: "generate_all_cotree_structures 3 0 = [''J(U(a,a),a)'', ''J(a,a,a)'']"
    by code_simp
  have l: "\<forall>s \<in> set [''J(U(a,a),a)'', ''J(a,a,a)'']. structure_line s"
    using composer_lines[of _ 3 0] e by simp
  have w: "\<forall>s \<in> set [''J(U(a,a),a)'', ''J(a,a,a)''].
      (\<lambda>s. Inr (''g6:'' @ s) :: string + string) s = Inr ((\<lambda>s. ''g6:'' @ s) s)"
    by simp
  have s: "[''J(U(a,a),a)'', ''J(a,a,a)'']
      = (if True then generate_all_cotree_structures else (\<lambda>n d. [])) 3 0"
    using e by simp
  have t: "''tmp'' \<noteq> ''out''" by simp
  have b: "(1::int) \<le> 1" and n: "(1::int) \<le> 2" by simp_all
  from batch_mode_ordering[OF b n s l w t, of hd Map.empty] e show ?thesis by simp
qed

text \<open>
  C7. When \<open>generate_cographs_final_g6\<close> returns, the scratch file is gone, the value
  returned is the output path it was given, and every file other than the scratch file
  and the output file is as it was before the call; when the scratch name was fresh, the
  file system differs from the one before the call at the output path only.
\<close>

theorem scratch_removed_on_success:
  assumes "generate_cographs_final_g6 connected_generator all_generator worker pick
             temp_filename node_count output_filename batch_size num_processes
             connected_only fs = (fs', Inr returned)"
  shows "returned = output_filename \<and> fs' temp_filename = None
     \<and> (\<forall>p. p \<noteq> output_filename \<and> p \<noteq> temp_filename \<longrightarrow> fs' p = fs p)
     \<and> (fs temp_filename = None \<longrightarrow> (\<forall>p. p \<noteq> output_filename \<longrightarrow> fs' p = fs p))"
  using assms
  by (auto simp: generate_cographs_final_g6_def Let_def split: option.splits)

theorem scratch_removed_on_success_witness:
  "generate_cographs_final_g6 generate_all_cotree_structures (\<lambda>n d. [])
        (\<lambda>s. Inr (''g6:'' @ s)) (hd :: string list \<Rightarrow> string) ''tmp'' 3 ''out'' 1 2 True
        [''keep'' \<mapsto> ''kept'']
      = (([''keep'' \<mapsto> ''kept''](''out'' \<mapsto> scratch_text [''g6:J(U(a,a),a)'', ''g6:J(a,a,a)'']))
           (''tmp'' := None), Inr ''out'')
   \<and> ((([''keep'' \<mapsto> ''kept''](''out'' \<mapsto> scratch_text [''g6:J(U(a,a),a)'', ''g6:J(a,a,a)'']))
           (''tmp'' := None)) ''tmp'' = None)
   \<and> ((([''keep'' \<mapsto> ''kept''](''out'' \<mapsto> scratch_text [''g6:J(U(a,a),a)'', ''g6:J(a,a,a)'']))
           (''tmp'' := None)) ''keep'' = Some ''kept'')"
proof -
  have e: "generate_all_cotree_structures 3 0 = [''J(U(a,a),a)'', ''J(a,a,a)'']"
    by code_simp
  have l: "\<forall>s \<in> set [''J(U(a,a),a)'', ''J(a,a,a)'']. structure_line s"
    using composer_lines[of _ 3 0] e by simp
  have w: "\<forall>s \<in> set [''J(U(a,a),a)'', ''J(a,a,a)''].
      (\<lambda>s. Inr (''g6:'' @ s) :: string + string) s = Inr ((\<lambda>s. ''g6:'' @ s) s)"
    by simp
  have "process_batches (hd :: string list \<Rightarrow> string) (\<lambda>s. Inr (''g6:'' @ s)) 1 2
        (scratch_text [''J(U(a,a),a)'', ''J(a,a,a)''])
      = (map (\<lambda>s. (''g6:'' @ s) @ [newline]) [''J(U(a,a),a)'', ''J(a,a,a)''], None)"
    by (rule process_batches_success[OF _ _ l w]) simp_all
  with e have r: "generate_cographs_final_g6 generate_all_cotree_structures (\<lambda>n d. [])
        (\<lambda>s. Inr (''g6:'' @ s)) (hd :: string list \<Rightarrow> string) ''tmp'' 3 ''out'' 1 2 True
        [''keep'' \<mapsto> ''kept'']
      = (([''keep'' \<mapsto> ''kept''](''out'' \<mapsto> scratch_text [''g6:J(U(a,a),a)'', ''g6:J(a,a,a)'']))
           (''tmp'' := None), Inr ''out'')"
    by (simp add: generate_cographs_final_g6_def Let_def scratch_text_def fun_eq_iff)
  from scratch_removed_on_success[OF r] r show ?thesis by simp
qed




section \<open>The in-memory mode\<close>

text \<open>
  \<open>generate_cographs_g6\<close> feeds the structures of the selected generator to
  \<open>pool.imap_unordered\<close> and appends every result as it arrives. The pool is a transition
  system: the structures not yet handed out, in the generator's order; the structures
  some worker is busy with, at most \<open>num_processes\<close> of them; and the results appended so
  far. A worker becomes busy with the next structure, or a busy worker finishes and its
  result is appended, or it raises and the exception leaves the loop.
\<close>

datatype 'e pool_state =
  Running "string list" "string multiset" "string list"
  | Raised 'e

inductive pool_step :: "(string \<Rightarrow> 'e + string) \<Rightarrow> int \<Rightarrow> 'e pool_state \<Rightarrow> 'e pool_state \<Rightarrow> bool"
  for worker :: "string \<Rightarrow> 'e + string" and num_processes :: int where
  dispatch: "int (size busy) < num_processes \<Longrightarrow>
     pool_step worker num_processes (Running (s # pending) busy results)
       (Running pending (add_mset s busy) results)"
| complete: "s \<in># busy \<Longrightarrow> worker s = Inr g6 \<Longrightarrow>
     pool_step worker num_processes (Running pending busy results)
       (Running pending (busy - {#s#}) (results @ [g6]))"
| failure: "s \<in># busy \<Longrightarrow> worker s = Inl e \<Longrightarrow>
     pool_step worker num_processes (Running pending busy results) (Raised e)"

text \<open>The outcomes of a call: \<open>ValueError\<close> from the pool when \<open>num_processes < 1\<close>; the
  list \<open>results\<close> once nothing is pending and no worker is busy; a worker's exception.\<close>

definition generate_cographs_g6 ::
  "(nat \<Rightarrow> nat \<Rightarrow> string list) \<Rightarrow> (nat \<Rightarrow> nat \<Rightarrow> string list)
     \<Rightarrow> (string \<Rightarrow> 'e + string) \<Rightarrow> nat \<Rightarrow> bool \<Rightarrow> int
     \<Rightarrow> 'e pipeline_error + string list \<Rightarrow> bool" where
  "generate_cographs_g6 connected_generator all_generator worker node_count connected_only
       num_processes outcome =
     (let generator = (if connected_only then connected_generator else all_generator);
          start = Running (generator node_count 0) {#} []
      in if num_processes < 1 then outcome = Inl PoolValueError
         else (\<exists>results. (pool_step worker num_processes)\<^sup>*\<^sup>* start (Running [] {#} results)
                 \<and> outcome = Inr results)
            \<or> (\<exists>e. (pool_step worker num_processes)\<^sup>*\<^sup>* start (Raised e)
                 \<and> outcome = Inl (WorkerError e)))"

text \<open>The outcomes of the structures handed to the pool, wherever they stand.\<close>

fun pool_outcomes :: "(string \<Rightarrow> 'e + string) \<Rightarrow> 'e pool_state \<Rightarrow> ('e + string) multiset option" where
  "pool_outcomes worker (Running pending busy results) =
     Some (image_mset worker (mset pending) + image_mset worker busy
           + image_mset Inr (mset results))"
| "pool_outcomes worker (Raised e) = None"

lemma pool_step_outcomes:
  assumes "pool_step worker num_processes st st'"
    and "pool_outcomes worker st' \<noteq> None"
  shows "pool_outcomes worker st' = pool_outcomes worker st"
  using assms
proof (cases rule: pool_step.cases)
  case (dispatch busy s pending results)
  then show ?thesis by simp
next
  case (complete s busy g6 pending results)
  then have "image_mset worker busy = image_mset worker (busy - {#s#}) + {#Inr g6#}"
    by (metis add_mset_add_single image_mset_add_mset insert_DiffM)
  with complete show ?thesis by simp
next
  case (failure s busy e pending results)
  with assms(2) show ?thesis by simp
qed

lemma pool_run_outcomes:
  assumes "(pool_step worker num_processes)\<^sup>*\<^sup>* st st'"
    and "pool_outcomes worker st' \<noteq> None"
  shows "pool_outcomes worker st' = pool_outcomes worker st"
  using assms
proof (induction rule: rtranclp_induct)
  case base
  show ?case by simp
next
  case (step y z)
  from pool_step_outcomes[OF step.hyps(2) step.prems] step.prems
  have "pool_outcomes worker y \<noteq> None" and "pool_outcomes worker z = pool_outcomes worker y"
    by simp_all
  with step.IH show ?case by simp
qed

lemma pool_run_one:
  assumes "1 \<le> num_processes" and "worker s = Inr g6"
  shows "(pool_step worker num_processes)\<^sup>*\<^sup>* (Running (s # pending) {#} results)
           (Running pending {#} (results @ [g6]))"
proof -
  from assms(1) have "pool_step worker num_processes (Running (s # pending) {#} results)
      (Running pending {#s#} results)"
    using pool_step.dispatch[of "{#}" num_processes worker s pending results] by simp
  moreover from assms(2) have "pool_step worker num_processes (Running pending {#s#} results)
      (Running pending ({#s#} - {#s#}) (results @ [g6]))"
    by (intro pool_step.complete) simp_all
  ultimately show ?thesis by (simp add: converse_rtranclp_into_rtranclp)
qed

lemma pool_run_in_order:
  assumes "1 \<le> num_processes" and "\<forall>s \<in> set xs. worker s = Inr (g6 s)"
  shows "(pool_step worker num_processes)\<^sup>*\<^sup>* (Running xs {#} results)
           (Running [] {#} (results @ map g6 xs))"
  using assms(2)
proof (induction xs arbitrary: results)
  case Nil
  show ?case by simp
next
  case (Cons x xs)
  from pool_run_one[OF assms(1), of worker x "g6 x" xs results] Cons.prems
  have "(pool_step worker num_processes)\<^sup>*\<^sup>* (Running (x # xs) {#} results)
      (Running xs {#} (results @ [g6 x]))"
    by simp
  moreover from Cons.IH[of "results @ [g6 x]"] Cons.prems
  have "(pool_step worker num_processes)\<^sup>*\<^sup>* (Running xs {#} (results @ [g6 x]))
      (Running [] {#} (results @ map g6 (x # xs)))"
    by simp
  ultimately show ?case by (rule rtranclp_trans)
qed

lemma pool_run_swapped:
  assumes "2 \<le> num_processes" and "worker x = Inr gx" and "worker y = Inr gy"
  shows "(pool_step worker num_processes)\<^sup>*\<^sup>* (Running (x # y # pending) {#} [])
           (Running pending {#} [gy, gx])"
proof -
  from assms(1) have "pool_step worker num_processes (Running (x # y # pending) {#} [])
      (Running (y # pending) {#x#} [])"
    using pool_step.dispatch[of "{#}" num_processes worker x "y # pending" "[]"] by simp
  moreover from assms(1) have "pool_step worker num_processes (Running (y # pending) {#x#} [])
      (Running pending {#y, x#} [])"
    using pool_step.dispatch[of "{#x#}" num_processes worker y pending "[]"] by simp
  moreover from assms(3) have "pool_step worker num_processes (Running pending {#y, x#} [])
      (Running pending ({#y, x#} - {#y#}) ([] @ [gy]))"
    by (intro pool_step.complete) simp_all
  moreover from assms(2) have "pool_step worker num_processes (Running pending {#x#} [gy])
      (Running pending ({#x#} - {#x#}) ([gy] @ [gx]))"
    by (intro pool_step.complete) simp_all
  ultimately show ?thesis
    by (simp add: converse_rtranclp_into_rtranclp)
qed

text \<open>
  C6. Whatever list \<open>generate_cographs_g6\<close> returns holds, counted with multiplicity,
  exactly the worker's results on the structures of the selected generator: none twice,
  none dropped. With at least one worker and a worker that encodes every structure, the
  list in the generator's order is a possible result; with at least two workers, so is the
  list in which the first two results have changed places: the order of the list is the
  order of completion.
\<close>

theorem in_memory_permutation:
  assumes "structures = (if connected_only then connected_generator else all_generator) node_count 0"
  shows "(\<forall>results.
            generate_cographs_g6 connected_generator all_generator worker node_count
              connected_only num_processes (Inr results)
            \<longrightarrow> mset (map Inr results) = mset (map worker structures))
     \<and> (1 \<le> num_processes \<and> (\<forall>s \<in> set structures. worker s = Inr (g6 s))
          \<longrightarrow> generate_cographs_g6 connected_generator all_generator worker node_count
                connected_only num_processes (Inr (map g6 structures)))
     \<and> (2 \<le> num_processes \<and> (\<forall>s \<in> set structures. worker s = Inr (g6 s))
            \<and> structures = x # y # rest
          \<longrightarrow> generate_cographs_g6 connected_generator all_generator worker node_count
                connected_only num_processes (Inr (g6 y # g6 x # map g6 rest)))"
proof (intro conjI allI impI)
  fix results
  assume "generate_cographs_g6 connected_generator all_generator worker node_count
            connected_only num_processes (Inr results)"
  with assms have "(pool_step worker num_processes)\<^sup>*\<^sup>* (Running structures {#} [])
      (Running [] {#} results)"
    by (auto simp: generate_cographs_g6_def Let_def split: if_splits)
  from pool_run_outcomes[OF this] show "mset (map Inr results) = mset (map worker structures)"
    by simp
next
  assume a: "1 \<le> num_processes \<and> (\<forall>s \<in> set structures. worker s = Inr (g6 s))"
  then have "(pool_step worker num_processes)\<^sup>*\<^sup>* (Running structures {#} [])
      (Running [] {#} ([] @ map g6 structures))"
    by (intro pool_run_in_order) simp_all
  with a assms show "generate_cographs_g6 connected_generator all_generator worker node_count
      connected_only num_processes (Inr (map g6 structures))"
    by (auto simp: generate_cographs_g6_def Let_def)
next
  assume a: "2 \<le> num_processes \<and> (\<forall>s \<in> set structures. worker s = Inr (g6 s))
      \<and> structures = x # y # rest"
  then have "(pool_step worker num_processes)\<^sup>*\<^sup>* (Running (x # y # rest) {#} [])
      (Running rest {#} [g6 y, g6 x])"
    by (intro pool_run_swapped) simp_all
  moreover from a have "(pool_step worker num_processes)\<^sup>*\<^sup>* (Running rest {#} [g6 y, g6 x])
      (Running [] {#} ([g6 y, g6 x] @ map g6 rest))"
    by (intro pool_run_in_order) simp_all
  ultimately have "(pool_step worker num_processes)\<^sup>*\<^sup>* (Running structures {#} [])
      (Running [] {#} (g6 y # g6 x # map g6 rest))"
    using a by simp
  with a assms show "generate_cographs_g6 connected_generator all_generator worker node_count
      connected_only num_processes (Inr (g6 y # g6 x # map g6 rest))"
    by (auto simp: generate_cographs_g6_def Let_def)
qed

theorem in_memory_permutation_witness:
  "generate_all_cotree_structures 3 0 = [''J(U(a,a),a)'', ''J(a,a,a)'']
   \<and> generate_cographs_g6 generate_all_cotree_structures (\<lambda>n d. [])
        (\<lambda>s. Inr (''g6:'' @ s) :: string + string) 3 True 2
        (Inr [''g6:J(U(a,a),a)'', ''g6:J(a,a,a)''])
   \<and> generate_cographs_g6 generate_all_cotree_structures (\<lambda>n d. [])
        (\<lambda>s. Inr (''g6:'' @ s) :: string + string) 3 True 2
        (Inr [''g6:J(a,a,a)'', ''g6:J(U(a,a),a)''])
   \<and> mset (map Inr [''g6:J(a,a,a)'', ''g6:J(U(a,a),a)''])
       = mset (map (\<lambda>s. Inr (''g6:'' @ s) :: string + string) [''J(U(a,a),a)'', ''J(a,a,a)''])"
proof -
  have e: "generate_all_cotree_structures 3 0 = [''J(U(a,a),a)'', ''J(a,a,a)'']"
    by code_simp
  then have s: "[''J(U(a,a),a)'', ''J(a,a,a)'']
      = (if True then generate_all_cotree_structures else (\<lambda>n d. [])) 3 0"
    by simp
  note t = in_memory_permutation[OF s, of "\<lambda>s. Inr (''g6:'' @ s) :: string + string" 2
      "\<lambda>s. ''g6:'' @ s" "''J(U(a,a),a)''" "''J(a,a,a)''" "[]"]
  from t have swapped: "generate_cographs_g6 generate_all_cotree_structures (\<lambda>n d. [])
        (\<lambda>s. Inr (''g6:'' @ s) :: string + string) 3 True 2
        (Inr [''g6:J(a,a,a)'', ''g6:J(U(a,a),a)''])"
    by simp
  from t have ordered: "generate_cographs_g6 generate_all_cotree_structures (\<lambda>n d. [])
        (\<lambda>s. Inr (''g6:'' @ s) :: string + string) 3 True 2
        (Inr [''g6:J(U(a,a),a)'', ''g6:J(a,a,a)''])"
    by simp
  from t swapped have "mset (map Inr [''g6:J(a,a,a)'', ''g6:J(U(a,a),a)''])
       = mset (map (\<lambda>s. Inr (''g6:'' @ s) :: string + string) [''J(U(a,a),a)'', ''J(a,a,a)''])"
    by blast
  with e swapped ordered show ?thesis by blast
qed

section \<open>The cotree parser of the renderer (\<open>src/cograph_generator/visualization.py\<close>)\<close>

subsection \<open>\<open>parse_cotree\<close>\<close>

text \<open>
  The state the nested functions of \<open>parse_cotree\<close> share: the counter \<open>node_id\<close>, the
  list \<open>edges\<close> and the dictionaries \<open>labels\<close> and \<open>is_leaf\<close>, kept as association lists in
  insertion order; \<open>d[k] = v\<close> is \<open>AList.update k v d\<close>.
\<close>

record parse_state =
  node_id :: nat
  edges :: "(nat \<times> nat) list"
  labels :: "(nat \<times> string) list"
  is_leaf :: "(nat \<times> bool) list"

datatype py_error = IndexError

text \<open>\<open>_split_args\<close>: the loop over the characters, with its three locals.\<close>

fun split_loop :: "string \<Rightarrow> string list \<Rightarrow> int \<Rightarrow> string \<Rightarrow> string list" where
  "split_loop [] result balance current = result @ [current]"
| "split_loop (ch # s) result balance current =
     (if ch = CHR '','' \<and> balance = 0 then split_loop s (result @ [current]) balance []
      else split_loop s result
             (if ch = CHR ''('' then balance + 1
              else if ch = CHR '')'' then balance - 1 else balance)
             (current @ [ch]))"

definition split_args :: "string \<Rightarrow> string list" where
  "split_args s = split_loop s [] 0 []"

text \<open>\<open>str(n)\<close> for the leaf total in a label.\<close>

function decimal :: "nat \<Rightarrow> string" where
  "decimal n = (if n < 10 then [char_of (48 + n)]
                else decimal (n div 10) @ [char_of (48 + n mod 10)])"
  by pat_completeness simp
termination
  by (relation "measure id") simp_all

declare decimal.simps [simp del]

definition add_edge :: "nat option \<Rightarrow> nat \<Rightarrow> parse_state \<Rightarrow> parse_state" where
  "add_edge parent current st =
     (case parent of None \<Rightarrow> st | Some p \<Rightarrow> st\<lparr>edges := edges st @ [(p, current)]\<rparr>)"

lemma split_loop_weight:
  "sum_list (map (\<lambda>p. length p + 1) (split_loop s result balance current))
     = sum_list (map (\<lambda>p. length p + 1) result) + length current + 1 + length s"
  by (induction s result balance current rule: split_loop.induct) simp_all

lemma split_args_weight:
  "sum_list (map (\<lambda>p. length p + 1) (split_args s)) = length s + 1"
  using split_loop_weight[of s "[]" 0 "[]"] by (simp add: split_args_def)

text \<open>
  \<open>_parse(expr, parent)\<close> and its loop over the parts. \<open>expr[2:-1]\<close> is
  \<open>butlast (drop 2 expr)\<close> for a string of any length; \<open>expr[0]\<close> raises \<open>IndexError\<close> on
  the empty string. An exception leaves \<open>parse_cotree\<close>, so no state comes with it.
\<close>

function parse_expr :: "string \<Rightarrow> nat option \<Rightarrow> parse_state \<Rightarrow> py_error + (nat \<times> parse_state)"
  and parse_parts :: "string list \<Rightarrow> nat \<Rightarrow> parse_state \<Rightarrow> py_error + (nat list \<times> parse_state)"
  where
  "parse_expr expr parent st =
     (if expr = ''a''
      then Inr (1, add_edge parent (node_id st)
                     (st\<lparr>node_id := node_id st + 1,
                         is_leaf := AList.update (node_id st) True (is_leaf st)\<rparr>))
      else if expr = [] then Inl IndexError
      else case parse_parts (split_args (butlast (drop 2 expr))) (node_id st)
                  (st\<lparr>node_id := node_id st + 1\<rparr>) of
             Inl e \<Rightarrow> Inl e
           | Inr (leaf_counts, st2) \<Rightarrow>
               Inr (sum_list leaf_counts,
                    add_edge parent (node_id st)
                      (st2\<lparr>labels := AList.update (node_id st)
                                         ([hd expr] @ '' ('' @ decimal (sum_list leaf_counts) @ '')'')
                                         (labels st2),
                           is_leaf := AList.update (node_id st) False (is_leaf st2)\<rparr>)))"
| "parse_parts [] current st = Inr ([], st)"
| "parse_parts (subexpr # rest) current st =
     (case parse_expr subexpr (Some current) st of
        Inl e \<Rightarrow> Inl e
      | Inr (leaf_total, st1) \<Rightarrow>
          (case parse_parts rest current st1 of
             Inl e \<Rightarrow> Inl e
           | Inr (leaf_counts, st2) \<Rightarrow> Inr (leaf_total # leaf_counts, st2)))"
  by pat_completeness auto
termination
proof (relation "measure (\<lambda>x. case x of
          Inl (expr, parent, st) \<Rightarrow> 2 * length expr + 2
        | Inr (parts, current, st) \<Rightarrow> 2 * sum_list (map (\<lambda>p. length p + 1) parts) + 1)")
  show "wf (measure (\<lambda>x. case x of
          Inl (expr, parent, st) \<Rightarrow> 2 * length (expr :: string) + 2
        | Inr (parts, current, st) \<Rightarrow> 2 * sum_list (map (\<lambda>p. length (p :: string) + 1) parts) + 1))"
    by simp
next
  fix expr :: string and parent :: "nat option" and st :: parse_state
  assume "expr \<noteq> []"
  then have "length (butlast (drop 2 expr)) < length expr" by (cases expr) auto
  then show "(Inr (split_args (butlast (drop 2 expr)), node_id st, st\<lparr>node_id := node_id st + 1\<rparr>),
              Inl (expr, parent, st))
      \<in> measure (\<lambda>x. case x of
          Inl (expr, parent, st) \<Rightarrow> 2 * length expr + 2
        | Inr (parts, current, st) \<Rightarrow> 2 * sum_list (map (\<lambda>p. length p + 1) parts) + 1)"
    using split_args_weight[of "butlast (drop 2 expr)"] by simp
qed simp_all

declare parse_expr.simps [simp del]

definition parse_cotree ::
  "string \<Rightarrow> py_error + ((nat \<times> nat) list \<times> (nat \<times> string) list \<times> (nat \<times> bool) list)" where
  "parse_cotree serialized =
     (case parse_expr serialized None \<lparr>node_id = 1, edges = [], labels = [], is_leaf = []\<rparr> of
        Inl e \<Rightarrow> Inl e
      | Inr (total_leaves, st) \<Rightarrow> Inr (edges st, labels st, is_leaf st))"

lemma parse_cotree_examples:
  "parse_cotree ''a'' = Inr ([], [], [(1, True)])"
  "parse_cotree ''J(U(a,a),a)''
     = Inr ([(2, 3), (2, 4), (1, 2), (1, 5)], [(2, ''U (2)''), (1, ''J (3)'')],
            [(3, True), (4, True), (2, False), (5, True), (1, False)])"
  "parse_cotree ''J()'' = Inl IndexError"
  by code_simp+

subsection \<open>Splitting the text of a node's children\<close>

text \<open>Every operator node has at least one child: the strings of the grammar
  \<open>a | J(child,...,child) | U(child,...,child)\<close>.\<close>

fun nonempty_nodes :: "cotree \<Rightarrow> bool" where
  "nonempty_nodes Leaf = True"
| "nonempty_nodes (Node opr cs) = (cs \<noteq> [] \<and> (\<forall>c \<in> set cs. nonempty_nodes c))"

fun node_total :: "cotree \<Rightarrow> nat" where
  "node_total Leaf = 1"
| "node_total (Node opr cs) = 1 + sum_list (map node_total cs)"

lemma well_formed_nonempty_nodes: "well_formed t \<Longrightarrow> nonempty_nodes t"
  by (induction t) auto

lemma split_loop_append_plain:
  assumes "CHR '','' \<notin> set u" and "CHR ''('' \<notin> set u" and "CHR '')'' \<notin> set u"
  shows "split_loop (u @ rest) result balance current
       = split_loop rest result balance (current @ u)"
  using assms by (induction u arbitrary: current) auto

lemma split_loop_children:
  assumes step: "\<And>c rest result balance current. c \<in> set cs \<Longrightarrow> 0 \<le> balance \<Longrightarrow>
      split_loop (structure_text c @ rest) result balance current
        = split_loop rest result balance (current @ structure_text c)"
    and pos: "0 < balance"
  shows "split_loop (join_commas (map structure_text cs) @ rest) result balance current
       = split_loop rest result balance (current @ join_commas (map structure_text cs))"
  using step
proof (induction cs arbitrary: current)
  case Nil
  show ?case by simp
next
  case (Cons c cs)
  show ?case
  proof (cases "cs = []")
    case True
    with Cons.prems pos show ?thesis by simp
  next
    case False
    let ?tail = "join_commas (map structure_text cs)"
    from False have j: "join_commas (map structure_text (c # cs))
        = structure_text c @ CHR '','' # ?tail"
      by (simp add: join_commas_Cons)
    have "split_loop (structure_text c @ (CHR '','' # ?tail @ rest)) result balance current
        = split_loop (CHR '','' # ?tail @ rest) result balance (current @ structure_text c)"
      using Cons.prems pos by simp
    also from pos have "\<dots> = split_loop (?tail @ rest) result balance
        ((current @ structure_text c) @ [CHR '',''])"
      by simp
    also have "\<dots> = split_loop rest result balance
        (((current @ structure_text c) @ [CHR '','']) @ ?tail)"
      using Cons.IH[of "(current @ structure_text c) @ [CHR '','']"] Cons.prems by simp
    finally show ?thesis using False by (simp add: join_commas_Cons)
  qed
qed

lemma split_loop_text:
  "0 \<le> balance \<Longrightarrow>
     split_loop (structure_text t @ rest) result balance current
       = split_loop rest result balance (current @ structure_text t)"
proof (induction t arbitrary: rest result balance current)
  case Leaf
  show ?case by simp
next
  case (Node opr cs)
  let ?body = "join_commas (map structure_text cs)"
  have o: "operator_text opr \<noteq> []" "CHR '','' \<notin> set (operator_text opr)"
    "CHR ''('' \<notin> set (operator_text opr)" "CHR '')'' \<notin> set (operator_text opr)"
    by (cases opr; simp)+
  have t: "structure_text (Node opr cs) = operator_text opr @ CHR ''('' # ?body @ '')''"
    by (simp add: apply_cograph_operator_structure_def)
  have "split_loop (operator_text opr @ (CHR ''('' # ?body @ '')'' @ rest)) result balance current
      = split_loop (CHR ''('' # ?body @ '')'' @ rest) result balance (current @ operator_text opr)"
    by (rule split_loop_append_plain[OF o(2,3,4)])
  also have "\<dots> = split_loop (?body @ ('')'' @ rest)) result (balance + 1)
      ((current @ operator_text opr) @ ''('')"
    by simp
  also have "\<dots> = split_loop ('')'' @ rest) result (balance + 1)
      (((current @ operator_text opr) @ ''('') @ ?body)"
    using Node.prems by (intro split_loop_children Node.IH) simp_all
  also have "\<dots> = split_loop rest result balance
      ((((current @ operator_text opr) @ ''('') @ ?body) @ '')'')"
    using Node.prems by simp
  finally show ?case by (simp add: apply_cograph_operator_structure_def)
qed

lemma split_loop_top:
  "cs \<noteq> [] \<Longrightarrow>
     split_loop (join_commas (map structure_text cs)) result 0 current
       = result @ (current @ structure_text (hd cs)) # map structure_text (tl cs)"
proof (induction cs arbitrary: result current)
  case Nil
  then show ?case by simp
next
  case (Cons c cs)
  show ?case
  proof (cases "cs = []")
    case True
    with split_loop_text[of 0 c "[]" result current] show ?thesis by simp
  next
    case False
    then have j: "join_commas (map structure_text (c # cs))
        = structure_text c @ CHR '','' # join_commas (map structure_text cs)"
      by (simp add: join_commas_Cons)
    from False obtain d ds where cs: "cs = d # ds" by (cases cs) auto
    have "split_loop (structure_text c @ (CHR '','' # join_commas (map structure_text cs)))
            result 0 current
        = split_loop (CHR '','' # join_commas (map structure_text cs)) result 0
            (current @ structure_text c)"
      by (rule split_loop_text) simp
    also have "\<dots> = split_loop (join_commas (map structure_text cs))
        (result @ [current @ structure_text c]) 0 []"
      by simp
    also from Cons.IH[OF False] have "\<dots> = (result @ [current @ structure_text c])
        @ ([] @ structure_text (hd cs)) # map structure_text (tl cs)"
      by simp
    finally show ?thesis using False by (simp add: join_commas_Cons cs)
  qed
qed

lemma split_args_children:
  "cs \<noteq> [] \<Longrightarrow> split_args (join_commas (map structure_text cs)) = map structure_text cs"
  using split_loop_top[of cs "[]" "[]"] by (cases cs) (simp_all add: split_args_def)

lemma node_text_parts:
  "structure_text (Node opr cs) \<noteq> ''a''"
  "structure_text (Node opr cs) \<noteq> []"
  "hd (structure_text (Node opr cs)) = hd (operator_text opr)"
  "butlast (drop 2 (structure_text (Node opr cs))) = join_commas (map structure_text cs)"
  by (cases opr; simp add: apply_cograph_operator_structure_def butlast_append)+

lemma count_join_commas:
  "count_list (join_commas xs) CHR ''a'' = sum_list (map (\<lambda>x. count_list x CHR ''a'') xs)"
  by (induction xs rule: join_commas.induct) simp_all

lemma count_structure_text:
  "count_list (structure_text t) CHR ''a'' = leaf_count t"
proof (induction t)
  case Leaf
  show ?case by simp
next
  case (Node opr cs)
  have "sum_list (map (\<lambda>x. count_list x CHR ''a'') (map structure_text cs))
      = sum_list (map leaf_count cs)"
    using Node.IH by (induction cs) simp_all
  then show ?case
    by (cases opr) (simp_all add: apply_cograph_operator_structure_def count_join_commas)
qed

subsection \<open>What the parser adds to its state\<close>

definition fresh_state :: "parse_state \<Rightarrow> bool" where
  "fresh_state st \<longleftrightarrow> (\<forall>i \<in> fst ` set (is_leaf st). i < node_id st)"

definition extends_state ::
  "parse_state \<Rightarrow> parse_state \<Rightarrow> nat \<Rightarrow> (nat \<times> nat) list \<Rightarrow> (nat \<times> bool) list \<Rightarrow> bool" where
  "extends_state st st' n es ms \<longleftrightarrow>
     node_id st' = node_id st + n \<and> edges st' = edges st @ es \<and> is_leaf st' = is_leaf st @ ms"

text \<open>The edges of a subtree whose root gets the id \<open>k\<close> and that has \<open>n\<close> nodes: every
  node but the root has one edge into it, from a smaller id of the subtree; the root has
  one from the parent, if there is a parent.\<close>

definition subtree_edges :: "nat \<Rightarrow> nat option \<Rightarrow> nat \<Rightarrow> (nat \<times> nat) list \<Rightarrow> bool" where
  "subtree_edges k parent n es \<longleftrightarrow>
     distinct (map snd es)
     \<and> snd ` set es = {(case parent of None \<Rightarrow> k + 1 | Some p \<Rightarrow> k) ..< k + n}
     \<and> (\<forall>(p, c) \<in> set es. (parent = Some p \<and> c = k) \<or> (k \<le> p \<and> p < c))"

definition forest_edges :: "nat \<Rightarrow> nat \<Rightarrow> nat \<Rightarrow> (nat \<times> nat) list \<Rightarrow> bool" where
  "forest_edges current k m es \<longleftrightarrow>
     distinct (map snd es) \<and> snd ` set es = {k ..< k + m}
     \<and> (\<forall>(p, c) \<in> set es. p = current \<or> (k \<le> p \<and> p < c))"

definition leaf_marks :: "nat \<Rightarrow> nat \<Rightarrow> nat \<Rightarrow> (nat \<times> bool) list \<Rightarrow> bool" where
  "leaf_marks k n leaves ms \<longleftrightarrow>
     distinct (map fst ms) \<and> fst ` set ms = {k ..< k + n} \<and> length (filter snd ms) = leaves"

lemma update_fresh: "k \<notin> fst ` set al \<Longrightarrow> AList.update k v al = al @ [(k, v)]"
  by (induction al) auto

lemma add_edge_fields:
  "node_id (add_edge parent c st) = node_id st"
  "is_leaf (add_edge parent c st) = is_leaf st"
  "edges (add_edge parent c st) = edges st @ (case parent of None \<Rightarrow> [] | Some p \<Rightarrow> [(p, c)])"
  by (cases parent; simp add: add_edge_def)+

lemma fresh_extends:
  assumes "fresh_state st" and "extends_state st st' n es ms"
    and "fst ` set ms = {node_id st ..< node_id st + n}"
  shows "fresh_state st'"
proof -
  have "i < node_id st'" if "i \<in> fst ` set (is_leaf st')" for i
  proof -
    from that assms(2) have "i \<in> fst ` set (is_leaf st) \<or> i \<in> fst ` set ms"
      by (auto simp: extends_state_def)
    moreover from assms(2) have "node_id st' = node_id st + n"
      by (simp add: extends_state_def)
    ultimately show ?thesis using assms(1,3) by (auto simp: fresh_state_def)
  qed
  then show ?thesis by (simp add: fresh_state_def)
qed

lemma parse_forest:
  assumes step: "\<And>c parent st. c \<in> set cs \<Longrightarrow> fresh_state st \<Longrightarrow>
      \<exists>st' es ms. parse_expr (structure_text c) parent st = Inr (leaf_count c, st')
        \<and> extends_state st st' (node_total c) es ms
        \<and> subtree_edges (node_id st) parent (node_total c) es
        \<and> leaf_marks (node_id st) (node_total c) (leaf_count c) ms"
    and fresh: "fresh_state st"
  shows "\<exists>st' es ms. parse_parts (map structure_text cs) current st = Inr (map leaf_count cs, st')
        \<and> extends_state st st' (sum_list (map node_total cs)) es ms
        \<and> forest_edges current (node_id st) (sum_list (map node_total cs)) es
        \<and> leaf_marks (node_id st) (sum_list (map node_total cs)) (sum_list (map leaf_count cs)) ms"
  using assms
proof (induction cs arbitrary: st)
  case Nil
  have "parse_parts (map structure_text []) current st = Inr (map leaf_count [], st)
      \<and> extends_state st st (sum_list (map node_total [])) [] []
      \<and> forest_edges current (node_id st) (sum_list (map node_total [])) []
      \<and> leaf_marks (node_id st) (sum_list (map node_total [])) (sum_list (map leaf_count [])) []"
    by (simp add: extends_state_def forest_edges_def leaf_marks_def)
  then show ?case by blast
next
  case (Cons c cs)
  let ?k = "node_id st"
  from Cons.prems(1)[of c st "Some current"] Cons.prems(2) obtain st1 es1 ms1
    where p1: "parse_expr (structure_text c) (Some current) st = Inr (leaf_count c, st1)"
      and x1: "extends_state st st1 (node_total c) es1 ms1"
      and e1: "subtree_edges ?k (Some current) (node_total c) es1"
      and m1: "leaf_marks ?k (node_total c) (leaf_count c) ms1"
    by auto
  from m1 have "fst ` set ms1 = {?k ..< ?k + node_total c}" by (simp add: leaf_marks_def)
  from fresh_extends[OF Cons.prems(2) x1 this] have f1: "fresh_state st1" .
  from x1 have k1: "node_id st1 = ?k + node_total c" by (simp add: extends_state_def)
  have "\<exists>st' es ms. parse_parts (map structure_text cs) current st1 = Inr (map leaf_count cs, st')
        \<and> extends_state st1 st' (sum_list (map node_total cs)) es ms
        \<and> forest_edges current (node_id st1) (sum_list (map node_total cs)) es
        \<and> leaf_marks (node_id st1) (sum_list (map node_total cs)) (sum_list (map leaf_count cs)) ms"
    by (rule Cons.IH[OF _ f1]) (use Cons.prems(1) in auto)
  then obtain st2 es2 ms2
    where p2: "parse_parts (map structure_text cs) current st1 = Inr (map leaf_count cs, st2)"
      and x2: "extends_state st1 st2 (sum_list (map node_total cs)) es2 ms2"
      and e2: "forest_edges current (?k + node_total c) (sum_list (map node_total cs)) es2"
      and m2: "leaf_marks (?k + node_total c) (sum_list (map node_total cs))
                 (sum_list (map leaf_count cs)) ms2"
    unfolding k1 by blast
  from p1 p2 have "parse_parts (map structure_text (c # cs)) current st
      = Inr (map leaf_count (c # cs), st2)"
    by simp
  moreover from x1 x2 have "extends_state st st2 (sum_list (map node_total (c # cs)))
      (es1 @ es2) (ms1 @ ms2)"
    by (simp add: extends_state_def)
  moreover from e1 e2 have "forest_edges current ?k (sum_list (map node_total (c # cs)))
      (es1 @ es2)"
    by (fastforce simp: subtree_edges_def forest_edges_def image_Un)
  moreover from m1 m2 have "leaf_marks ?k (sum_list (map node_total (c # cs)))
      (sum_list (map leaf_count (c # cs))) (ms1 @ ms2)"
    by (fastforce simp: leaf_marks_def image_Un)
  ultimately show ?case by blast
qed

lemma forest_to_subtree:
  assumes "forest_edges k (k + 1) m es"
  shows "subtree_edges k parent (1 + m)
           (es @ (case parent of None \<Rightarrow> [] | Some p \<Rightarrow> [(p, k)]))"
proof -
  from assms have d: "distinct (map snd es)" and s: "snd ` set es = {k + 1 ..< k + 1 + m}"
    and c: "\<forall>(p, c) \<in> set es. p = k \<or> (k + 1 \<le> p \<and> p < c)"
    by (simp_all add: forest_edges_def)
  have lt: "k < c" if "(p, c) \<in> set es" for p c
  proof -
    from that have "c \<in> snd ` set es" by force
    with s show ?thesis by simp
  qed
  have c': "k \<le> p \<and> p < c" if "(p, c) \<in> set es" for p c
    using c lt[OF that] that by fastforce
  from s have nk: "k \<notin> snd ` set es" by simp
  show ?thesis
  proof (cases parent)
    case None
    with d s c' show ?thesis by (auto simp: subtree_edges_def)
  next
    case (Some q)
    from s have "insert k (snd ` set es) = {k ..< k + (1 + m)}" by auto
    with Some d nk c' show ?thesis by (auto simp: subtree_edges_def)
  qed
qed

lemma marks_with_root:
  assumes "leaf_marks (k + 1) m leaves ms"
  shows "leaf_marks k (1 + m) leaves (ms @ [(k, False)])"
proof -
  from assms have d: "distinct (map fst ms)" and s: "fst ` set ms = {k + 1 ..< k + 1 + m}"
    and l: "length (filter snd ms) = leaves"
    by (simp_all add: leaf_marks_def)
  from s have nk: "k \<notin> fst ` set ms" by simp
  from s have "insert k (fst ` set ms) = {k ..< k + (1 + m)}" by auto
  with d nk l show ?thesis by (simp add: leaf_marks_def)
qed

lemma parse_tree:
  assumes "nonempty_nodes t" and "fresh_state st"
  shows "\<exists>st' es ms. parse_expr (structure_text t) parent st = Inr (leaf_count t, st')
        \<and> extends_state st st' (node_total t) es ms
        \<and> subtree_edges (node_id st) parent (node_total t) es
        \<and> leaf_marks (node_id st) (node_total t) (leaf_count t) ms"
  using assms
proof (induction t arbitrary: parent st)
  case Leaf
  let ?k = "node_id st"
  let ?es = "case parent of None \<Rightarrow> [] | Some p \<Rightarrow> [(p, ?k)]"
  let ?st' = "add_edge parent ?k (st\<lparr>node_id := ?k + 1, is_leaf := AList.update ?k True (is_leaf st)\<rparr>)"
  from Leaf.prems(2) have u: "AList.update ?k True (is_leaf st) = is_leaf st @ [(?k, True)]"
    by (intro update_fresh) (auto simp: fresh_state_def)
  have "parse_expr (structure_text Leaf) parent st = Inr (leaf_count Leaf, ?st')"
    by (subst parse_expr.simps) simp
  moreover from u have "extends_state st ?st' (node_total Leaf) ?es [(?k, True)]"
    by (simp add: extends_state_def add_edge_fields)
  moreover have "subtree_edges ?k parent (node_total Leaf) ?es"
    by (cases parent) (simp_all add: subtree_edges_def)
  moreover have "leaf_marks ?k (node_total Leaf) (leaf_count Leaf) [(?k, True)]"
    by (simp add: leaf_marks_def)
  ultimately show ?case by blast
next
  case (Node opr cs)
  let ?k = "node_id st"
  let ?m = "sum_list (map node_total cs)"
  let ?st1 = "st\<lparr>node_id := ?k + 1\<rparr>"
  from Node.prems(1) have cs: "cs \<noteq> []" and sub: "\<forall>c \<in> set cs. nonempty_nodes c" by simp_all
  from Node.prems(2) have f1: "fresh_state ?st1" by (auto simp: fresh_state_def)
  have "\<exists>st' es ms. parse_parts (map structure_text cs) ?k ?st1 = Inr (map leaf_count cs, st')
        \<and> extends_state ?st1 st' ?m es ms
        \<and> forest_edges ?k (node_id ?st1) ?m es
        \<and> leaf_marks (node_id ?st1) ?m (sum_list (map leaf_count cs)) ms"
    by (rule parse_forest[OF _ f1]) (use Node.IH sub in blast)
  then obtain st2 es ms
    where p: "parse_parts (map structure_text cs) ?k ?st1 = Inr (map leaf_count cs, st2)"
      and x: "extends_state ?st1 st2 ?m es ms"
      and e: "forest_edges ?k (?k + 1) ?m es"
      and m: "leaf_marks (?k + 1) ?m (sum_list (map leaf_count cs)) ms"
    by auto
  let ?pe = "case parent of None \<Rightarrow> [] | Some p \<Rightarrow> [(p, ?k)]"
  let ?label = "[hd (structure_text (Node opr cs))] @ '' (''
      @ decimal (sum_list (map leaf_count cs)) @ '')''"
  let ?st' = "add_edge parent ?k
      (st2\<lparr>labels := AList.update ?k ?label (labels st2),
           is_leaf := AList.update ?k False (is_leaf st2)\<rparr>)"
  from x have il: "is_leaf st2 = is_leaf st @ ms" and ed: "edges st2 = edges st @ es"
    and ni: "node_id st2 = ?k + 1 + ?m"
    by (simp_all add: extends_state_def)
  from m have "fst ` set ms = {?k + 1 ..< ?k + 1 + ?m}" by (simp add: leaf_marks_def)
  then have "?k \<notin> fst ` set ms" by simp
  moreover from Node.prems(2) have "?k \<notin> fst ` set (is_leaf st)"
    by (force simp: fresh_state_def)
  ultimately have "?k \<notin> fst ` set (is_leaf st @ ms)" by (simp add: image_Un)
  with il have u: "AList.update ?k False (is_leaf st2) = is_leaf st @ ms @ [(?k, False)]"
    by (simp add: update_fresh)
  from cs have sa: "split_args (join_commas (map structure_text cs)) = map structure_text cs"
    by (rule split_args_children)
  have "parse_expr (structure_text (Node opr cs)) parent st
      = Inr (leaf_count (Node opr cs), ?st')"
    by (subst parse_expr.simps)
       (simp only: node_text_parts sa p if_False sum.case prod.case leaf_count.simps)
  moreover from u ed ni have "extends_state st ?st' (node_total (Node opr cs)) (es @ ?pe)
      (ms @ [(?k, False)])"
    by (simp add: extends_state_def add_edge_fields)
  moreover from forest_to_subtree[OF e, of parent]
  have "subtree_edges ?k parent (node_total (Node opr cs)) (es @ ?pe)"
    by simp
  moreover from marks_with_root[OF m]
  have "leaf_marks ?k (node_total (Node opr cs)) (leaf_count (Node opr cs))
      (ms @ [(?k, False)])"
    by simp
  ultimately show ?case by blast
qed

subsection \<open>The edge list is a tree rooted at node 1\<close>

text \<open>An edge list of pairs (parent, child) is a tree with the given root on the given
  nodes: every node but the root is the child of exactly one edge, the root of none, every
  edge joins two nodes, and every node is reached from the root.\<close>

definition tree_rooted_at :: "nat \<Rightarrow> nat set \<Rightarrow> (nat \<times> nat) list \<Rightarrow> bool" where
  "tree_rooted_at root nodes es \<longleftrightarrow>
     distinct (map snd es) \<and> snd ` set es = nodes - {root} \<and> fst ` set es \<subseteq> nodes
     \<and> (\<forall>v \<in> nodes. (root, v) \<in> (set es)\<^sup>*)"

lemma top_edges_tree:
  assumes "subtree_edges 1 None n es" and "0 < n"
  shows "tree_rooted_at 1 {1 ..< 1 + n} es"
proof -
  from assms(1) have d: "distinct (map snd es)" and s: "snd ` set es = {2 ..< 1 + n}"
    and c: "\<forall>(p, c) \<in> set es. 1 \<le> p \<and> p < c"
    by (simp_all add: subtree_edges_def numeral_2_eq_2)
  have up: "c < 1 + n" if "(p, c) \<in> set es" for p c
  proof -
    from that have "c \<in> snd ` set es" by force
    with s show ?thesis by simp
  qed
  have f: "fst ` set es \<subseteq> {1 ..< 1 + n}"
  proof
    fix p
    assume "p \<in> fst ` set es"
    then obtain c where pc: "(p, c) \<in> set es" by auto
    with c up[OF pc] show "p \<in> {1 ..< 1 + n}" by auto
  qed
  have r: "(1, v) \<in> (set es)\<^sup>*" if "v \<in> {1 ..< 1 + n}" for v
    using that
  proof (induction v rule: less_induct)
    case (less v)
    show ?case
    proof (cases "v = 1")
      case True
      then show ?thesis by simp
    next
      case False
      with less.prems s have "v \<in> snd ` set es" by auto
      then obtain p where pv: "(p, v) \<in> set es" by auto
      with c have "1 \<le> p" and "p < v" by auto
      with less.prems have "p \<in> {1 ..< 1 + n}" by simp
      from less.IH[OF \<open>p < v\<close> this] pv show ?thesis by simp
    qed
  qed
  from s assms(2) have "snd ` set es = {1 ..< 1 + n} - {1}" by auto
  with d f r show ?thesis by (simp add: tree_rooted_at_def)
qed

lemma node_total_positive: "0 < node_total t"
  by (cases t) simp_all

lemma node_total_children:
  assumes "cs \<noteq> []"
  shows "2 \<le> node_total (Node opr cs)"
proof -
  from assms obtain c cs' where "cs = c # cs'" by (cases cs) auto
  with node_total_positive[of c] show ?thesis by simp
qed

text \<open>
  C10, as the code has it. For the text of a tree whose operator nodes all have
  children, \<open>parse_cotree\<close> returns; the ids it assigns are 1 to the number of nodes,
  each marked once in \<open>is_leaf\<close>; the edge list is a tree rooted at node 1 on these ids,
  and the parent of every edge is an assigned id smaller than the child; unless the text
  is the single leaf \<open>a\<close>, every assigned id occurs in the edge list; for the single leaf
  the edge list and the labels are empty, so that the id 1 appears in \<open>is_leaf\<close> only; and
  the number of ids marked as leaves is the number of \<open>a\<close> in the text.
\<close>

theorem parse_cotree_tree:
  assumes "nonempty_nodes t"
  shows "\<exists>es ls ms. parse_cotree (structure_text t) = Inr (es, ls, ms)
     \<and> distinct (map fst ms) \<and> fst ` set ms = {1 ..< 1 + node_total t}
     \<and> tree_rooted_at 1 (fst ` set ms) es
     \<and> (\<forall>(p, c) \<in> set es. 1 \<le> p \<and> p < c)
     \<and> (t \<noteq> Leaf \<longrightarrow> fst ` set ms \<subseteq> fst ` set es \<union> snd ` set es)
     \<and> (t = Leaf \<longrightarrow> es = [] \<and> ls = [])
     \<and> length (filter snd ms) = count_list (structure_text t) CHR ''a''"
proof -
  let ?st = "\<lparr>node_id = 1, edges = [], labels = [], is_leaf = []\<rparr>"
  have "fresh_state ?st" by (simp add: fresh_state_def)
  from parse_tree[OF assms this, of None] obtain st' es ms
    where p: "parse_expr (structure_text t) None ?st = Inr (leaf_count t, st')"
      and x: "extends_state ?st st' (node_total t) es ms"
      and e: "subtree_edges 1 None (node_total t) es"
      and m: "leaf_marks 1 (node_total t) (leaf_count t) ms"
    by auto
  from x have f: "edges st' = es" "is_leaf st' = ms" by (simp_all add: extends_state_def)
  from m have d: "distinct (map fst ms)" and ids: "fst ` set ms = {1 ..< 1 + node_total t}"
    and l: "length (filter snd ms) = leaf_count t"
    by (simp_all add: leaf_marks_def)
  from top_edges_tree[OF e node_total_positive] ids
  have tr: "tree_rooted_at 1 (fst ` set ms) es" by simp
  from e have s: "snd ` set es = {2 ..< 1 + node_total t}"
    and c: "\<forall>(p, c) \<in> set es. 1 \<le> p \<and> p < c"
    by (simp_all add: subtree_edges_def numeral_2_eq_2)
  have occ: "fst ` set ms \<subseteq> fst ` set es \<union> snd ` set es" if "t \<noteq> Leaf"
  proof -
    from that assms obtain opr cs where "t = Node opr cs" and "cs \<noteq> []" by (cases t) auto
    with node_total_children[of cs opr] have n: "2 \<le> node_total t" by simp
    from n s have "2 \<in> snd ` set es" by simp
    then obtain p where p2: "(p, 2) \<in> set es" by auto
    with c have "p = 1" by auto
    with p2 have one: "1 \<in> fst ` set es" by force
    show ?thesis
    proof
      fix v
      assume "v \<in> fst ` set ms"
      with ids have "v = 1 \<or> v \<in> {2 ..< 1 + node_total t}" by auto
      with one s show "v \<in> fst ` set es \<union> snd ` set es" by auto
    qed
  qed
  have nil: "es = []" if "t = Leaf"
  proof -
    from that e have "snd ` set es = {}" by (simp add: subtree_edges_def)
    then show ?thesis by auto
  qed
  have lab: "labels st' = []" if "t = Leaf"
    using p that by (subst (asm) parse_expr.simps) (auto simp: add_edge_def)
  from p f have "parse_cotree (structure_text t) = Inr (es, labels st', ms)"
    by (simp add: parse_cotree_def)
  moreover from l have "length (filter snd ms) = count_list (structure_text t) CHR ''a''"
    by (simp add: count_structure_text)
  ultimately have "parse_cotree (structure_text t) = Inr (es, labels st', ms)
     \<and> distinct (map fst ms) \<and> fst ` set ms = {1 ..< 1 + node_total t}
     \<and> tree_rooted_at 1 (fst ` set ms) es
     \<and> (\<forall>(p, c) \<in> set es. 1 \<le> p \<and> p < c)
     \<and> (t \<noteq> Leaf \<longrightarrow> fst ` set ms \<subseteq> fst ` set es \<union> snd ` set es)
     \<and> (t = Leaf \<longrightarrow> es = [] \<and> labels st' = [])
     \<and> length (filter snd ms) = count_list (structure_text t) CHR ''a''"
    using d ids tr c occ nil lab by blast
  then show ?thesis by blast
qed

theorem parse_cotree_tree_witness:
  "nonempty_nodes (Node JOIN [Node UNION [Leaf, Leaf], Leaf])
   \<and> structure_text (Node JOIN [Node UNION [Leaf, Leaf], Leaf]) = ''J(U(a,a),a)''
   \<and> parse_cotree ''J(U(a,a),a)''
       = Inr ([(2, 3), (2, 4), (1, 2), (1, 5)], [(2, ''U (2)''), (1, ''J (3)'')],
              [(3, True), (4, True), (2, False), (5, True), (1, False)])
   \<and> tree_rooted_at 1 {1, 2, 3, 4, 5} [(2, 3), (2, 4), (1, 2), (1, 5)]
   \<and> length (filter snd [(3::nat, True), (4, True), (2, False), (5, True), (1, False)])
       = count_list ''J(U(a,a),a)'' CHR ''a''"
proof -
  let ?t = "Node JOIN [Node UNION [Leaf, Leaf], Leaf]"
  have n: "nonempty_nodes ?t" by simp
  have s: "structure_text ?t = ''J(U(a,a),a)''"
    by (simp add: apply_cograph_operator_structure_def)
  have v: "parse_cotree ''J(U(a,a),a)''
       = Inr ([(2, 3), (2, 4), (1, 2), (1, 5)], [(2, ''U (2)''), (1, ''J (3)'')],
              [(3, True), (4, True), (2, False), (5, True), (1, False)])"
    by code_simp
  from parse_cotree_tree[OF n] obtain es ls ms
    where "parse_cotree (structure_text ?t) = Inr (es, ls, ms)"
      and "tree_rooted_at 1 (fst ` set ms) es"
      and "length (filter snd ms) = count_list (structure_text ?t) CHR ''a''"
    by blast
  with s v have "tree_rooted_at 1 (fst ` set [(3::nat, True), (4, True), (2, False), (5, True), (1, False)])
        [(2, 3), (2, 4), (1, 2), (1, 5)]"
    and c: "length (filter snd [(3::nat, True), (4, True), (2, False), (5, True), (1, False)])
       = count_list ''J(U(a,a),a)'' CHR ''a''"
    by simp_all
  moreover have "fst ` set [(3::nat, True), (4, True), (2, False), (5, True), (1, False)]
      = {1, 2, 3, 4, 5}"
    by auto
  ultimately show ?thesis using n s v by simp
qed

text \<open>
  C10, as the claim states it, fails at the single leaf: \<open>a\<close> is a string of the grammar,
  \<open>parse_cotree\<close> assigns it the node id 1 and marks it a leaf, and returns the empty
  edge list, in which the id 1 does not occur.
\<close>

theorem parse_cotree_single_leaf_counterexample:
  "nonempty_nodes Leaf \<and> structure_text Leaf = ''a''
   \<and> parse_cotree ''a'' = Inr ([], [], [(1, True)])
   \<and> 1 \<in> fst ` set [(1::nat, True)]
   \<and> 1 \<notin> fst ` set ([] :: (nat \<times> nat) list) \<union> snd ` set ([] :: (nat \<times> nat) list)"
proof -
  have "parse_cotree ''a'' = Inr ([], [], [(1, True)])" by code_simp
  then show ?thesis by simp
qed

section \<open>The graph6 encoder\<close>

text \<open>
  Modelled from the spec: the encoder \<open>_structure_to_g6_optimized_worker\<close> of the absent
  module \<open>adjacency_g6\<close>, from the contract of the Graph6Encoder. It parses the structure
  text, derives the graph by the join and union rule (\<open>derived_graph\<close>), reads the upper
  triangle of the adjacency relation column by column, pads the bits with zeros to a
  multiple of six, packs every six bits, the first bit the most significant, and emits
  the size and every packed value plus 63 as characters. A text that is not of the
  grammar fails with \<open>StructureParseError\<close>, more than 62 vertices with
  \<open>EncodingRangeError\<close>.
\<close>

datatype encoder_error = StructureParseError string | EncodingRangeError nat

text \<open>A recursive-descent parser of the structure grammar; the fuel bounds the depth of
  the descent and \<open>parse_structure\<close> gives it more than any text of that length needs.\<close>

fun parse_structure_fuel :: "nat \<Rightarrow> string \<Rightarrow> (cotree \<times> string) option"
  and parse_children_fuel :: "nat \<Rightarrow> string \<Rightarrow> (cotree list \<times> string) option" where
  "parse_structure_fuel 0 s = None"
| "parse_structure_fuel (Suc f) s =
     (case s of
        [] \<Rightarrow> None
      | h # r \<Rightarrow>
          if h = CHR ''a'' then Some (Leaf, r)
          else if (h = CHR ''J'' \<or> h = CHR ''U'') \<and> r \<noteq> [] \<and> hd r = CHR ''(''
          then (case parse_children_fuel f (tl r) of
                  None \<Rightarrow> None
                | Some (cs, r') \<Rightarrow>
                    if r' \<noteq> [] \<and> hd r' = CHR '')''
                    then Some (Node (if h = CHR ''J'' then JOIN else UNION) cs, tl r')
                    else None)
          else None)"
| "parse_children_fuel 0 s = None"
| "parse_children_fuel (Suc f) s =
     (case parse_structure_fuel f s of
        None \<Rightarrow> None
      | Some (c, r) \<Rightarrow>
          if r \<noteq> [] \<and> hd r = CHR '',''
          then (case parse_children_fuel f (tl r) of
                  None \<Rightarrow> None
                | Some (cs, r') \<Rightarrow> Some (c # cs, r'))
          else Some ([c], r))"

definition parse_structure :: "string \<Rightarrow> cotree option" where
  "parse_structure s =
     (case parse_structure_fuel (Suc (length s)) s of
        None \<Rightarrow> None
      | Some (t, r) \<Rightarrow> if r = [] then Some t else None)"

text \<open>The adjacency bits \<open>x(i, j)\<close> in the order of graph6: for the columns
  \<open>j = 1, ..., n - 1\<close>, the rows \<open>i = 0, ..., j - 1\<close>.\<close>

definition upper_triangle_bits :: "graph \<Rightarrow> nat \<Rightarrow> bool list" where
  "upper_triangle_bits g n = concat (map (\<lambda>j. map (\<lambda>i. adjacent g i j) [0..<j]) [1..<n])"

definition pad_to_six :: "bool list \<Rightarrow> bool list" where
  "pad_to_six bits = bits @ replicate ((6 - length bits mod 6) mod 6) False"

function groups_of_six :: "bool list \<Rightarrow> bool list list" where
  "groups_of_six bits = (if bits = [] then [] else take 6 bits # groups_of_six (drop 6 bits))"
  by pat_completeness simp
termination
  by (relation "measure length") simp_all

declare groups_of_six.simps [simp del]

definition group_value :: "bool list \<Rightarrow> nat" where
  "group_value grp = foldl (\<lambda>v b. 2 * v + (if b then 1 else 0)) 0 grp"

definition graph6_line :: "graph \<Rightarrow> string" where
  "graph6_line g =
     char_of (fst g + 63)
       # map (\<lambda>grp. char_of (group_value grp + 63))
           (groups_of_six (pad_to_six (upper_triangle_bits g (fst g))))"

definition encode_graph6 :: "string \<Rightarrow> encoder_error + string" where
  "encode_graph6 structure =
     (case parse_structure structure of
        None \<Rightarrow> Inl (StructureParseError structure)
      | Some t \<Rightarrow>
          if 62 < fst (derived_graph t) then Inl (EncodingRangeError (fst (derived_graph t)))
          else Inr (graph6_line (derived_graph t)))"

lemma encode_graph6_examples:
  "encode_graph6 ''J(a,a)'' = Inr ''A_''"
  "encode_graph6 ''U(a,a)'' = Inr ''A?''"
  "encode_graph6 ''a'' = Inr ''@''"
  "encode_graph6 ''J(U(a,a),a)'' = Inr ''BW''"
  "encode_graph6 ''J(a,,a)'' = Inl (StructureParseError ''J(a,,a)'')"
  by code_simp+

subsection \<open>The parser reads back every structure text\<close>

lemma parse_children_text:
  assumes step: "\<And>c f r. c \<in> set cs \<Longrightarrow> length (structure_text c) \<le> f \<Longrightarrow>
      parse_structure_fuel f (structure_text c @ r) = Some (c, r)"
    and "cs \<noteq> []" and "length (join_commas (map structure_text cs)) < f"
  shows "parse_children_fuel f (join_commas (map structure_text cs) @ CHR '')'' # r)
       = Some (cs, CHR '')'' # r)"
  using assms
proof (induction cs arbitrary: f)
  case Nil
  then show ?case by simp
next
  case (Cons c cs)
  from Cons.prems(3) obtain f' where f: "f = Suc f'" by (cases f) auto
  let ?X = "(if cs = [] then [] else CHR '','' # join_commas (map structure_text cs)) @ CHR '')'' # r"
  have j: "join_commas (map structure_text (c # cs)) @ CHR '')'' # r = structure_text c @ ?X"
    by (simp add: join_commas_Cons)
  from Cons.prems(3) f have lc: "length (structure_text c) \<le> f'"
    by (simp add: join_commas_Cons split: if_splits)
  from Cons.prems(1)[of c f' ?X] lc
  have pc: "parse_structure_fuel f' (structure_text c @ ?X) = Some (c, ?X)" by simp
  show ?case
  proof (cases "cs = []")
    case True
    with pc show ?thesis unfolding j f by simp
  next
    case False
    with Cons.prems(3) f have "length (join_commas (map structure_text cs)) < f'"
      by (simp add: join_commas_Cons)
    with Cons.IH[of f'] Cons.prems(1) False
    have "parse_children_fuel f' (join_commas (map structure_text cs) @ CHR '')'' # r)
        = Some (cs, CHR '')'' # r)"
      by simp
    with pc False show ?thesis unfolding j f by simp
  qed
qed

lemma parse_structure_text:
  "nonempty_nodes t \<Longrightarrow> length (structure_text t) \<le> f \<Longrightarrow>
     parse_structure_fuel f (structure_text t @ r) = Some (t, r)"
proof (induction t arbitrary: f r)
  case Leaf
  then obtain f' where "f = Suc f'" by (cases f) auto
  then show ?case by simp
next
  case (Node opr cs)
  let ?body = "join_commas (map structure_text cs)"
  from Node.prems(2) node_text_parts(2)[of opr cs] obtain f' where f: "f = Suc f'"
    by (cases f) (auto simp del: structure_text.simps)
  have t: "structure_text (Node opr cs) @ r
      = hd (operator_text opr) # CHR ''('' # ?body @ CHR '')'' # r"
    by (cases opr) (simp_all add: apply_cograph_operator_structure_def)
  from Node.prems(2) f have "length ?body < f'"
    by (cases opr) (simp_all add: apply_cograph_operator_structure_def)
  moreover from Node.prems(1) have "cs \<noteq> []" and "\<forall>c \<in> set cs. nonempty_nodes c"
    by simp_all
  ultimately have "parse_children_fuel f' (?body @ CHR '')'' # r) = Some (cs, CHR '')'' # r)"
    using Node.IH by (intro parse_children_text) auto
  then show ?case unfolding t f by (cases opr) simp_all
qed

lemma parse_structure_roundtrip:
  "nonempty_nodes t \<Longrightarrow> parse_structure (structure_text t) = Some t"
  using parse_structure_text[of t "Suc (length (structure_text t))" "[]"]
  by (simp add: parse_structure_def)

subsection \<open>Where a pair of vertices stands among the bits\<close>

lemma triangle_Suc: "Suc j * j div 2 = j * (j - 1) div 2 + j"
proof -
  have "Suc j * j = j * (j - 1) + 2 * j" by (cases j) (simp_all add: algebra_simps)
  then show ?thesis by simp
qed

lemma triangle_mono: "a \<le> b \<Longrightarrow> a * (a - 1) div 2 \<le> b * (b - 1) div (2::nat)"
  by (intro div_le_mono mult_le_mono) simp_all

lemma upper_triangle_bits_Suc:
  "0 < n \<Longrightarrow> upper_triangle_bits g (Suc n)
     = upper_triangle_bits g n @ map (\<lambda>i. adjacent g i n) [0..<n]"
  by (simp add: upper_triangle_bits_def)

lemma upper_triangle_bits_length:
  "length (upper_triangle_bits g n) = n * (n - 1) div 2"
proof (induction n)
  case 0
  show ?case by (simp add: upper_triangle_bits_def)
next
  case (Suc n)
  show ?case
  proof (cases "n = 0")
    case True
    then show ?thesis by (simp add: upper_triangle_bits_def)
  next
    case False
    with Suc show ?thesis
      using triangle_Suc[of n] by (simp add: upper_triangle_bits_Suc)
  qed
qed

lemma upper_triangle_bits_nth:
  "j < n \<Longrightarrow> i < j \<Longrightarrow>
     upper_triangle_bits g n ! (j * (j - 1) div 2 + i) = adjacent g i j"
proof (induction n)
  case 0
  then show ?case by simp
next
  case (Suc n)
  from Suc.prems have n: "0 < n" by simp
  show ?case
  proof (cases "j = n")
    case True
    with Suc.prems(2) show ?thesis
      by (simp add: upper_triangle_bits_Suc[OF n] nth_append upper_triangle_bits_length)
  next
    case False
    with Suc.prems have jn: "j < n" by simp
    from Suc.prems(2) have "j * (j - 1) div 2 + i < Suc j * j div 2"
      unfolding triangle_Suc by simp
    also from jn have "\<dots> \<le> n * (n - 1) div 2"
      using triangle_mono[of "Suc j" n] by simp
    finally have "j * (j - 1) div 2 + i < length (upper_triangle_bits g n)"
      by (simp add: upper_triangle_bits_length)
    with Suc.IH[OF jn Suc.prems(2)] show ?thesis
      by (simp add: upper_triangle_bits_Suc[OF n] nth_append)
  qed
qed

subsection \<open>Packing six bits to a character\<close>

text \<open>The bit at a position of the padded sequence, as a number: a position past the end
  of the bits is a zero of the padding.\<close>

definition bit_at :: "bool list \<Rightarrow> nat \<Rightarrow> nat" where
  "bit_at bits m = (if m < length bits \<and> bits ! m then 1 else 0)"

lemma pad_amount: "n + (6 - n mod 6) mod 6 = 6 * ((n + 5) div (6::nat))"
proof -
  define q r where "q = n div 6" and "r = n mod 6"
  then have n: "n = 6 * q + r" and r: "r < 6" by simp_all
  have a: "(n + 5) div 6 = q + (r + 5) div 6" unfolding n by (simp add: add.assoc)
  have b: "n mod 6 = r" by (simp add: r_def)
  from r consider "r = 0" | "r = 1" | "r = 2" | "r = 3" | "r = 4" | "r = 5" by linarith
  then show ?thesis
    by cases (simp_all add: a b, simp_all add: n)
qed

lemma pad_to_six_length: "length (pad_to_six bits) = 6 * ((length bits + 5) div 6)"
  using pad_amount[of "length bits"] by (simp add: pad_to_six_def)

lemma pad_to_six_nth:
  "m < length (pad_to_six bits) \<Longrightarrow>
     (if pad_to_six bits ! m then 1 else 0) = bit_at bits m"
  by (simp add: pad_to_six_def bit_at_def nth_append)

lemma groups_of_six_nth:
  "length xs = 6 * m \<Longrightarrow>
     length (groups_of_six xs) = m
     \<and> (\<forall>k < m. groups_of_six xs ! k = take 6 (drop (6 * k) xs))"
proof (induction m arbitrary: xs)
  case 0
  then show ?case by (subst groups_of_six.simps) simp
next
  case (Suc m)
  then have ne: "xs \<noteq> []" and l: "length (drop 6 xs) = 6 * m" by auto
  from Suc.IH[OF l] have len: "length (groups_of_six (drop 6 xs)) = m"
    and nth: "\<forall>k < m. groups_of_six (drop 6 xs) ! k = take 6 (drop (6 * k) (drop 6 xs))"
    by simp_all
  have g: "groups_of_six xs = take 6 xs # groups_of_six (drop 6 xs)"
    using ne by (subst groups_of_six.simps) simp
  have "groups_of_six xs ! k = take 6 (drop (6 * k) xs)" if "k < Suc m" for k
  proof (cases k)
    case 0
    with g show ?thesis by simp
  next
    case (Suc k')
    with that nth have "groups_of_six (drop 6 xs) ! k' = take 6 (drop (6 * k') (drop 6 xs))"
      by simp
    with g Suc show ?thesis by (simp add: add.commute)
  qed
  with g len show ?case by simp
qed

lemma group_value_six:
  assumes "length grp = 6"
  shows "group_value grp
     = 32 * (if grp ! 0 then 1 else 0) + 16 * (if grp ! 1 then 1 else 0)
       + 8 * (if grp ! 2 then 1 else 0) + 4 * (if grp ! 3 then 1 else 0)
       + 2 * (if grp ! 4 then 1 else 0) + (if grp ! 5 then 1 else 0)"
proof -
  from assms obtain b0 r0 where g0: "grp = b0 # r0" "length r0 = 5"
    by (cases grp) simp_all
  then obtain b1 r1 where g1: "r0 = b1 # r1" "length r1 = 4" by (cases r0) simp_all
  then obtain b2 r2 where g2: "r1 = b2 # r2" "length r2 = 3" by (cases r1) simp_all
  then obtain b3 r3 where g3: "r2 = b3 # r3" "length r3 = 2" by (cases r2) simp_all
  then obtain b4 r4 where g4: "r3 = b4 # r4" "length r4 = 1" by (cases r3) simp_all
  then obtain b5 where g5: "r4 = [b5]" by (cases r4) simp_all
  show ?thesis unfolding g0 g1 g2 g3 g4 g5 group_value_def by simp
qed

lemma packed_group:
  assumes "k < (length bits + 5) div 6"
  shows "group_value (groups_of_six (pad_to_six bits) ! k)
     = 32 * bit_at bits (6 * k) + 16 * bit_at bits (6 * k + 1) + 8 * bit_at bits (6 * k + 2)
       + 4 * bit_at bits (6 * k + 3) + 2 * bit_at bits (6 * k + 4) + bit_at bits (6 * k + 5)"
proof -
  let ?p = "pad_to_six bits"
  let ?g = "take 6 (drop (6 * k) ?p)"
  from groups_of_six_nth[OF pad_to_six_length, of bits] assms
  have g: "groups_of_six ?p ! k = ?g" by simp
  from assms have "6 * k + 6 \<le> 6 * ((length bits + 5) div 6)" by simp
  then have in_range: "6 * k + 6 \<le> length ?p" by (simp only: pad_to_six_length)
  then have len: "length ?g = 6" by simp
  have nth: "(if ?g ! b then 1 else 0) = bit_at bits (6 * k + b)" if "b < 6" for b
  proof -
    from that in_range have m: "6 * k + b < length ?p" by simp
    from that in_range have "?g ! b = ?p ! (6 * k + b)" by simp
    with pad_to_six_nth[OF m] show ?thesis by simp
  qed
  have "group_value ?g
     = 32 * (if ?g ! 0 then 1 else 0) + 16 * (if ?g ! 1 then 1 else 0)
       + 8 * (if ?g ! 2 then 1 else 0) + 4 * (if ?g ! 3 then 1 else 0)
       + 2 * (if ?g ! 4 then 1 else 0) + (if ?g ! 5 then 1 else 0)"
    by (rule group_value_six[OF len])
  also have "\<dots> = 32 * bit_at bits (6 * k) + 16 * bit_at bits (6 * k + 1)
       + 8 * bit_at bits (6 * k + 2) + 4 * bit_at bits (6 * k + 3)
       + 2 * bit_at bits (6 * k + 4) + bit_at bits (6 * k + 5)"
  proof -
    have n0: "(if ?g ! 0 then 1 else 0) = bit_at bits (6 * k)" using nth[of 0] by simp
    have n1: "(if ?g ! 1 then 1 else 0) = bit_at bits (6 * k + 1)" using nth[of 1] by simp
    have n2: "(if ?g ! 2 then 1 else 0) = bit_at bits (6 * k + 2)" using nth[of 2] by simp
    have n3: "(if ?g ! 3 then 1 else 0) = bit_at bits (6 * k + 3)" using nth[of 3] by simp
    have n4: "(if ?g ! 4 then 1 else 0) = bit_at bits (6 * k + 4)" using nth[of 4] by simp
    have n5: "(if ?g ! 5 then 1 else 0) = bit_at bits (6 * k + 5)" using nth[of 5] by simp
    show ?thesis by (simp only: n0 n1 n2 n3 n4 n5)
  qed
  finally show ?thesis unfolding g by simp
qed

lemma bit_at_le: "bit_at bits m \<le> 1"
  by (simp add: bit_at_def)

lemma packed_value_bound:
  "32 * bit_at bits a + 16 * bit_at bits b + 8 * bit_at bits c
     + 4 * bit_at bits d + 2 * bit_at bits e + bit_at bits f \<le> 63"
  using bit_at_le[of bits a] bit_at_le[of bits b] bit_at_le[of bits c]
    bit_at_le[of bits d] bit_at_le[of bits e] bit_at_le[of bits f]
  by linarith

section \<open>The graph6 line of a structure\<close>

text \<open>
  C4. For a structure on \<open>n \<le> 62\<close> vertices the encoder returns a line. Its first
  character is \<open>chr(n + 63)\<close>. The bits it packs are the \<open>n (n - 1) / 2\<close> bits of the upper
  triangle in column-major order: the bit of the vertices \<open>i < j\<close> stands at position
  \<open>j (j - 1) / 2 + i\<close>. The line has one more character for every six bits, the last
  group filled up, and the character at position \<open>k\<close> after the first has the code \<open>63\<close>
  plus the value of the bits \<open>6 k, ..., 6 k + 5\<close> read with the first as the most significant,
  a position past the last bit counting as zero.
\<close>

theorem graph6_format:
  assumes "nonempty_nodes t" and "n = leaf_count t" and "n \<le> 62"
    and "bits = upper_triangle_bits (derived_graph t) n"
  shows "\<exists>packed. encode_graph6 (structure_text t) = Inr (char_of (n + 63) # packed)
     \<and> length bits = n * (n - 1) div 2
     \<and> (\<forall>j < n. \<forall>i < j. bits ! (j * (j - 1) div 2 + i) = adjacent (derived_graph t) i j)
     \<and> length packed = (length bits + 5) div 6
     \<and> (\<forall>k < length packed. (of_char (packed ! k) :: nat)
           = 63 + (32 * bit_at bits (6 * k) + 16 * bit_at bits (6 * k + 1)
                   + 8 * bit_at bits (6 * k + 2) + 4 * bit_at bits (6 * k + 3)
                   + 2 * bit_at bits (6 * k + 4) + bit_at bits (6 * k + 5)))"
proof -
  let ?g = "derived_graph t"
  let ?groups = "groups_of_six (pad_to_six bits)"
  let ?packed = "map (\<lambda>grp. char_of (group_value grp + 63) :: char) ?groups"
  from assms(2) have n: "fst ?g = n" by (simp add: derived_graph_vertices)
  from groups_of_six_nth[OF pad_to_six_length, of bits]
  have len: "length ?groups = (length bits + 5) div 6" by simp
  from assms(1,3,4) n have enc: "encode_graph6 (structure_text t) = Inr (char_of (n + 63) # ?packed)"
    by (simp add: encode_graph6_def parse_structure_roundtrip graph6_line_def)
  have bl: "length bits = n * (n - 1) div 2"
    by (simp add: assms(4) upper_triangle_bits_length)
  have bn: "\<forall>j < n. \<forall>i < j. bits ! (j * (j - 1) div 2 + i) = adjacent ?g i j"
    unfolding assms(4) using upper_triangle_bits_nth by blast
  have pk: "(of_char (?packed ! k) :: nat)
           = 63 + (32 * bit_at bits (6 * k) + 16 * bit_at bits (6 * k + 1)
                   + 8 * bit_at bits (6 * k + 2) + 4 * bit_at bits (6 * k + 3)
                   + 2 * bit_at bits (6 * k + 4) + bit_at bits (6 * k + 5))"
    if "k < length ?packed" for k
  proof -
    let ?v = "32 * bit_at bits (6 * k) + 16 * bit_at bits (6 * k + 1)
                   + 8 * bit_at bits (6 * k + 2) + 4 * bit_at bits (6 * k + 3)
                   + 2 * bit_at bits (6 * k + 4) + bit_at bits (6 * k + 5)"
    from that len have k: "k < (length bits + 5) div 6" by simp
    from that have "?packed ! k = char_of (group_value (?groups ! k) + 63)" by simp
    also from packed_group[OF k] have "\<dots> = char_of (?v + 63)" by simp
    finally have "(of_char (?packed ! k) :: nat) = (?v + 63) mod 256" by simp
    moreover from packed_value_bound[of bits "6 * k" "6 * k + 1" "6 * k + 2" "6 * k + 3"
        "6 * k + 4" "6 * k + 5"]
    have "?v + 63 < 256" by simp
    ultimately show ?thesis by simp
  qed
  from enc bl bn len pk
  have "encode_graph6 (structure_text t) = Inr (char_of (n + 63) # ?packed)
     \<and> length bits = n * (n - 1) div 2
     \<and> (\<forall>j < n. \<forall>i < j. bits ! (j * (j - 1) div 2 + i) = adjacent ?g i j)
     \<and> length ?packed = (length bits + 5) div 6
     \<and> (\<forall>k < length ?packed. (of_char (?packed ! k) :: nat)
           = 63 + (32 * bit_at bits (6 * k) + 16 * bit_at bits (6 * k + 1)
                   + 8 * bit_at bits (6 * k + 2) + 4 * bit_at bits (6 * k + 3)
                   + 2 * bit_at bits (6 * k + 4) + bit_at bits (6 * k + 5)))"
    by simp
  then show ?thesis by (rule exI[of _ ?packed])
qed

theorem graph6_format_witness:
  "nonempty_nodes (Node JOIN [Node UNION [Leaf, Leaf], Leaf])
   \<and> (3::nat) = leaf_count (Node JOIN [Node UNION [Leaf, Leaf], Leaf])
   \<and> (3::nat) \<le> 62
   \<and> structure_text (Node JOIN [Node UNION [Leaf, Leaf], Leaf]) = ''J(U(a,a),a)''
   \<and> upper_triangle_bits (derived_graph (Node JOIN [Node UNION [Leaf, Leaf], Leaf])) 3
       = [False, True, True]
   \<and> encode_graph6 ''J(U(a,a),a)'' = Inr ''BW''
   \<and> (\<exists>packed. encode_graph6 ''J(U(a,a),a)'' = Inr (char_of ((3::nat) + 63) # packed)
        \<and> length packed = (length [False, True, True] + 5) div 6
        \<and> (of_char (packed ! 0) :: nat)
            = 63 + (32 * bit_at [False, True, True] 0 + 16 * bit_at [False, True, True] 1
                    + 8 * bit_at [False, True, True] 2 + 4 * bit_at [False, True, True] 3
                    + 2 * bit_at [False, True, True] 4 + bit_at [False, True, True] 5))"
proof -
  let ?t = "Node JOIN [Node UNION [Leaf, Leaf], Leaf]"
  have a: "nonempty_nodes ?t" by simp
  have b: "(3::nat) = leaf_count ?t" by simp
  have c: "(3::nat) \<le> 62" by simp
  have s: "structure_text ?t = ''J(U(a,a),a)''"
    by (simp add: apply_cograph_operator_structure_def)
  have u: "upper_triangle_bits (derived_graph ?t) 3 = [False, True, True]" by code_simp
  have v: "encode_graph6 ''J(U(a,a),a)'' = Inr ''BW''" by code_simp
  from graph6_format[OF a b c u[symmetric]] obtain packed
    where f1: "encode_graph6 (structure_text ?t) = Inr (char_of ((3::nat) + 63) # packed)"
      and f2: "length packed = (length [False, True, True] + 5) div 6"
      and f3: "\<forall>k < length packed. (of_char (packed ! k) :: nat)
            = 63 + (32 * bit_at [False, True, True] (6 * k)
                    + 16 * bit_at [False, True, True] (6 * k + 1)
                    + 8 * bit_at [False, True, True] (6 * k + 2)
                    + 4 * bit_at [False, True, True] (6 * k + 3)
                    + 2 * bit_at [False, True, True] (6 * k + 4)
                    + bit_at [False, True, True] (6 * k + 5))"
    by blast
  from f2 have "0 < length packed" by simp
  from f3[rule_format, OF this]
  have f4: "(of_char (packed ! 0) :: nat)
            = 63 + (32 * bit_at [False, True, True] 0 + 16 * bit_at [False, True, True] 1
                    + 8 * bit_at [False, True, True] 2 + 4 * bit_at [False, True, True] 3
                    + 2 * bit_at [False, True, True] 4 + bit_at [False, True, True] 5)"
    by (simp only: mult_zero_right add.left_neutral)
  from f1 s have "encode_graph6 ''J(U(a,a),a)'' = Inr (char_of ((3::nat) + 63) # packed)"
    by simp
  with f2 f4 have "encode_graph6 ''J(U(a,a),a)'' = Inr (char_of ((3::nat) + 63) # packed)
        \<and> length packed = (length [False, True, True] + 5) div 6
        \<and> (of_char (packed ! 0) :: nat)
            = 63 + (32 * bit_at [False, True, True] 0 + 16 * bit_at [False, True, True] 1
                    + 8 * bit_at [False, True, True] 2 + 4 * bit_at [False, True, True] 3
                    + 2 * bit_at [False, True, True] 4 + bit_at [False, True, True] 5)"
    by (intro conjI)
  then have "\<exists>packed. encode_graph6 ''J(U(a,a),a)'' = Inr (char_of ((3::nat) + 63) # packed)
        \<and> length packed = (length [False, True, True] + 5) div 6
        \<and> (of_char (packed ! 0) :: nat)
            = 63 + (32 * bit_at [False, True, True] 0 + 16 * bit_at [False, True, True] 1
                    + 8 * bit_at [False, True, True] 2 + 4 * bit_at [False, True, True] 3
                    + 2 * bit_at [False, True, True] 4 + bit_at [False, True, True] 5)"
    by (rule exI[of _ packed])
  with a b c s u v show ?thesis by blast
qed

end
